theory Spec2Isabelle
  imports Complex_Main "HOL-Library.Word" "HOL-Library.Log_Nat"
begin

unbundle bit_operations_syntax

section \<open>Packet format (lib/packet/types.ts)\<close>

text \<open>
  A JavaScript \<open>number\<close> is an IEEE binary64 value. Every finite binary64 value is a
  rational number, so numbers are modelled as rationals; an arithmetic operation of the
  source is the exact operation followed by the rounding \<open>fl\<close> defined further below.
  A byte of a \<open>Uint8Array\<close> or \<open>ArrayBuffer\<close> is an 8-bit word.
\<close>

type_synonym number = rat
type_synonym byte = "8 word"

definition PACKET_SIZE :: nat where
  "PACKET_SIZE = 16"

definition CHANNEL_COUNT :: nat where
  "CHANNEL_COUNT = 4"

definition BYTES_PER_CHANNEL :: nat where
  "BYTES_PER_CHANNEL = 4"

record PacketData =
  ch0 :: number
  ch1 :: number
  ch2 :: number
  ch3 :: number

section \<open>Rounding to binary64\<close>

text \<open>
  \<open>fl\<close> rounds a rational to the nearest number with a 53-bit significand, ties to
  the even significand, as IEEE 754 binary64 arithmetic does. The exponent is not
  bounded: overflow and subnormal numbers are outside the model. Every quantity the
  modelled code computes from unsigned 32-bit samples has magnitude at most \<open>2 ^ 33\<close>
  and, when not zero, at least \<open>2 ^ - 57\<close>, where \<open>fl\<close> and binary64 rounding agree.
\<close>

definition pow2 :: "int \<Rightarrow> rat" where
  "pow2 k = (if 0 \<le> k then 2 ^ nat k else 1 / 2 ^ nat (- k))"

text \<open>
  \<open>ilog2 x\<close> is the integer \<open>k\<close> with \<open>2 ^ k \<le> x < 2 ^ (k + 1)\<close>, for \<open>x > 0\<close>;
  \<open>bitlen\<close> is the number of binary digits of a positive integer.
\<close>

definition ilog2 :: "rat \<Rightarrow> int" where
  "ilog2 x =
     (let (p, q) = quotient_of x;
          k = bitlen p - bitlen q
      in if pow2 k \<le> x then k else k - 1)"

text \<open>Rounding to the nearest integer, a tie going to the even neighbour.\<close>

definition round_even :: "rat \<Rightarrow> int" where
  "round_even x =
     (let f = \<lfloor>x\<rfloor>; r = x - of_int f
      in if r < 1 / 2 then f
         else if 1 / 2 < r then f + 1
         else if even f then f else f + 1)"

definition fl :: "rat \<Rightarrow> number" where
  "fl x =
     (if x = 0 then 0
      else
        let e = ilog2 \<bar>x\<bar> - 52
        in sgn x * of_int (round_even (\<bar>x\<bar> / pow2 e)) * pow2 e)"

text \<open>The binary64 value of the literal \<open>0.05\<close>.\<close>

definition lit_0_05 :: number where
  "lit_0_05 = 3602879701896397 / 2 ^ 56"

section \<open>Numbers passed as offsets\<close>

text \<open>
  The \<open>offset\<close> parameter of \<open>parsePacket\<close> has the type \<open>number\<close>, so a caller may
  pass any binary64 value: a finite number, integral or not, \<open>NaN\<close> or an infinity.
  \<open>js_add x c\<close> is \<open>x + c\<close> for a finite \<open>c\<close>, and \<open>js_less a x\<close> is \<open>a < x\<close> for a
  finite \<open>a\<close>; a comparison with \<open>NaN\<close> is false. The sum of a finite number and 16
  never overflows.
\<close>

datatype js_number = NaN | PosInfinity | NegInfinity | Finite rat

definition js_add :: "js_number \<Rightarrow> number \<Rightarrow> js_number" where
  "js_add x c =
     (case x of
        NaN \<Rightarrow> NaN
      | PosInfinity \<Rightarrow> PosInfinity
      | NegInfinity \<Rightarrow> NegInfinity
      | Finite r \<Rightarrow> Finite (fl (r + c)))"

definition js_less :: "number \<Rightarrow> js_number \<Rightarrow> bool" where
  "js_less a x =
     (case x of
        NaN \<Rightarrow> False
      | PosInfinity \<Rightarrow> True
      | NegInfinity \<Rightarrow> False
      | Finite r \<Rightarrow> a < r)"

text \<open>
  \<open>ToIndex\<close> of the language standard: \<open>NaN\<close> becomes 0, a finite number is
  truncated towards zero, and a result outside \<open>[0, 2 ^ 53 - 1]\<close> is a \<open>RangeError\<close>,
  here \<open>None\<close>.
\<close>

definition ToIndex :: "js_number \<Rightarrow> nat option" where
  "ToIndex x =
     (case x of
        NaN \<Rightarrow> Some 0
      | PosInfinity \<Rightarrow> None
      | NegInfinity \<Rightarrow> None
      | Finite r \<Rightarrow>
          let t = (if 0 \<le> r then \<lfloor>r\<rfloor> else \<lceil>r\<rceil>)
          in if t < 0 \<or> 2 ^ 53 - 1 < t then None else Some (nat t))"

section \<open>Errors\<close>

text \<open>
  Every exception value that can reach a \<open>catch\<close> of the modelled code.
  \<open>FrameTooShort offset length\<close> is the \<open>RangeError\<close> thrown by the guard of
  \<open>parsePacket\<close> (its message carries the offset and the buffer length);
  \<open>DataViewRangeError\<close> is the \<open>RangeError\<close> of the \<open>DataView\<close> constructor,
  \<open>GetUint32RangeError\<close> the one of \<open>DataView.getUint32\<close>.
  \<open>NoReadableStream\<close> is the \<open>Error\<close> built when \<open>port.readable\<close> is null.
  A rejection of \<open>reader.read()\<close> is either the \<open>DOMException\<close> named
  \<open>AbortError\<close> or some other exception, identified by a tag.
\<close>

datatype reader_exn = AbortError | StreamError nat

datatype js_error =
    FrameTooShort js_number nat
  | DataViewRangeError
  | GetUint32RangeError
  | NoReadableStream
  | ReaderException reader_exn

section \<open>DataView over an ArrayBuffer\<close>

text \<open>
  An \<open>ArrayBuffer\<close> is its list of bytes. \<open>new DataView(buffer, byteOffset, byteLength)\<close>
  converts both numbers with \<open>ToIndex\<close> and throws a \<open>RangeError\<close> unless the view
  lies inside the buffer.
\<close>

record DataView =
  dv_buffer :: "byte list"
  dv_byteOffset :: nat
  dv_byteLength :: nat

definition new_DataView :: "byte list \<Rightarrow> js_number \<Rightarrow> js_number \<Rightarrow> js_error + DataView" where
  "new_DataView buffer byteOffset byteLength =
     (case ToIndex byteOffset of
        None \<Rightarrow> Inl DataViewRangeError
      | Some offset \<Rightarrow>
          if length buffer < offset then Inl DataViewRangeError
          else
            (case ToIndex byteLength of
               None \<Rightarrow> Inl DataViewRangeError
             | Some viewByteLength \<Rightarrow>
                 if length buffer < offset + viewByteLength then Inl DataViewRangeError
                 else Inr \<lparr>dv_buffer = buffer, dv_byteOffset = offset,
                           dv_byteLength = viewByteLength\<rparr>))"

text \<open>
  \<open>view.getUint32(byteOffset, littleEndian)\<close>, called with the integer constants 0, 4,
  8 and 12: a \<open>RangeError\<close> unless the four bytes lie inside the view; otherwise the
  unsigned 32-bit value of the four bytes, least significant byte first when
  \<open>littleEndian\<close> is true.
\<close>

definition uint32_of_bytes :: "byte \<Rightarrow> byte \<Rightarrow> byte \<Rightarrow> byte \<Rightarrow> nat" where
  "uint32_of_bytes b0 b1 b2 b3 =
     unat b0 + 2 ^ 8 * unat b1 + 2 ^ 16 * unat b2 + 2 ^ 24 * unat b3"

definition getUint32 :: "DataView \<Rightarrow> int \<Rightarrow> bool \<Rightarrow> js_error + number" where
  "getUint32 view byteOffset littleEndian =
     (if byteOffset < 0 \<or> dv_byteLength view < nat byteOffset + 4 then Inl GetUint32RangeError
      else
        let i = dv_byteOffset view + nat byteOffset;
            b = dv_buffer view
        in Inr (of_nat
             (if littleEndian
              then uint32_of_bytes (b ! i) (b ! (i + 1)) (b ! (i + 2)) (b ! (i + 3))
              else uint32_of_bytes (b ! (i + 3)) (b ! (i + 2)) (b ! (i + 1)) (b ! i))))"

section \<open>parsePacket (lib/packet/parser.ts)\<close>

text \<open>
  \<open>parsePacket(buffer, offset = 0)\<close>: a call without the second argument is
  \<open>parsePacket buffer (Finite 0)\<close>. The guard compares \<open>buffer.byteLength\<close> with the
  number \<open>offset + PACKET_SIZE\<close>.
\<close>

definition parsePacket :: "byte list \<Rightarrow> js_number \<Rightarrow> js_error + PacketData" where
  "parsePacket buffer offset =
     (if js_less (of_nat (length buffer)) (js_add offset (of_nat PACKET_SIZE))
      then Inl (FrameTooShort offset (length buffer))
      else
        case new_DataView buffer offset (Finite (of_nat PACKET_SIZE)) of
          Inl e \<Rightarrow> Inl e
        | Inr view \<Rightarrow>
            (case getUint32 view 0 True of
               Inl e \<Rightarrow> Inl e
             | Inr c0 \<Rightarrow>
                 (case getUint32 view (int BYTES_PER_CHANNEL) True of
                    Inl e \<Rightarrow> Inl e
                  | Inr c1 \<Rightarrow>
                      (case getUint32 view (int (BYTES_PER_CHANNEL * 2)) True of
                         Inl e \<Rightarrow> Inl e
                       | Inr c2 \<Rightarrow>
                           (case getUint32 view (int (BYTES_PER_CHANNEL * 3)) True of
                              Inl e \<Rightarrow> Inl e
                            | Inr c3 \<Rightarrow>
                                Inr \<lparr>ch0 = c0, ch1 = c1, ch2 = c2, ch3 = c3\<rparr>)))))"

text \<open>
  The value \<open>parsePacket\<close> returns when it returns, for a view that starts at byte
  \<open>off\<close>: channel \<open>i\<close> is the little-endian unsigned value of the bytes
  \<open>off + 4 i, \<dots>, off + 4 i + 3\<close>.
\<close>

definition le32_at :: "byte list \<Rightarrow> nat \<Rightarrow> number" where
  "le32_at b i = of_nat (uint32_of_bytes (b ! i) (b ! (i + 1)) (b ! (i + 2)) (b ! (i + 3)))"

definition decode_at :: "byte list \<Rightarrow> nat \<Rightarrow> PacketData" where
  "decode_at b off =
     \<lparr>ch0 = le32_at b off, ch1 = le32_at b (off + 4),
      ch2 = le32_at b (off + 8), ch3 = le32_at b (off + 12)\<rparr>"

text \<open>
  The spec's encoder (the repository has none): the four bytes of an unsigned 32-bit
  value, least significant first, and a 16-byte block holding four such values at
  offsets 0, 4, 8 and 12.
\<close>

definition le_bytes :: "32 word \<Rightarrow> byte list" where
  "le_bytes w = [ucast w, ucast (drop_bit 8 w), ucast (drop_bit 16 w), ucast (drop_bit 24 w)]"

definition encode_block :: "32 word \<Rightarrow> 32 word \<Rightarrow> 32 word \<Rightarrow> 32 word \<Rightarrow> byte list" where
  "encode_block a b c d = le_bytes a @ le_bytes b @ le_bytes c @ le_bytes d"

section \<open>WaveformChart (components/WaveformChart.tsx)\<close>

definition POINTS :: nat where
  "POINTS = 20"

definition Y_MAX :: number where
  "Y_MAX = 2 ^ 32"

record ChartDatum =
  point :: nat
  "value" :: "number option"

text \<open>The \<open>for\<close> loop of \<open>buildChartData\<close>, from index \<open>i\<close> on, appending to \<open>data\<close>.\<close>

function buildChartData_loop :: "number list \<Rightarrow> nat \<Rightarrow> ChartDatum list \<Rightarrow> ChartDatum list" where
  "buildChartData_loop buffer i data =
     (if i < POINTS
      then buildChartData_loop buffer (i + 1)
             (data @ [\<lparr>point = i,
                       value = (if i < length buffer then Some (buffer ! i) else None)\<rparr>])
      else data)"
  by pat_completeness auto
termination
  by (relation "measure (\<lambda>(buffer, i, data). POINTS - i)") auto

declare buildChartData_loop.simps [simp del]

definition buildChartData :: "number list \<Rightarrow> ChartDatum list" where
  "buildChartData buffer = buildChartData_loop buffer 0 []"

text \<open>
  The scan of \<open>computeYDomain\<close> over \<open>buffer[1], buffer[2], \<dots>\<close>, here the list of
  the remaining elements, carrying \<open>min\<close> and \<open>max\<close>.
\<close>

fun scan_min_max :: "number list \<Rightarrow> number \<Rightarrow> number \<Rightarrow> number \<times> number" where
  "scan_min_max [] mn mx = (mn, mx)"
| "scan_min_max (v # vs) mn mx =
     (let mn' = (if v < mn then v else mn);
          mx' = (if v > mx then v else mx)
      in scan_min_max vs mn' mx')"

text \<open>
  \<open>(max - min) * 0.05 || 1\<close>: the product is falsy exactly when it is zero (no operand
  is NaN here).
\<close>

definition computeYDomain :: "number list \<Rightarrow> bool \<Rightarrow> number \<times> number" where
  "computeYDomain buffer autoScale =
     (if \<not> autoScale \<or> length buffer = 0 then (0, Y_MAX)
      else
        let (mn, mx) = scan_min_max (tl buffer) (hd buffer) (hd buffer);
            scaled = fl (fl (mx - mn) * lit_0_05);
            pad = (if scaled = 0 then 1 else scaled)
        in (max 0 (fl (mn - pad)), min Y_MAX (fl (mx + pad))))"

text \<open>
  The effect run for each received packet: one push per channel, then one
  \<open>shift\<close> for each buffer longer than \<open>POINTS\<close>. \<open>Array.shift\<close> removes the first
  element. The four buffers of \<open>buffersRef\<close> are a list of four lists.
\<close>

definition array_push :: "'a list \<Rightarrow> 'a \<Rightarrow> 'a list" where
  "array_push b v = b @ [v]"

definition array_shift :: "'a list \<Rightarrow> 'a list" where
  "array_shift b = (case b of [] \<Rightarrow> [] | x # xs \<Rightarrow> xs)"

definition trim_buffer :: "number list \<Rightarrow> number list" where
  "trim_buffer b = (if length b > POINTS then array_shift b else b)"

definition packet_effect :: "number list list \<Rightarrow> PacketData option \<Rightarrow> number list list" where
  "packet_effect buffers packet =
     (case packet of
        None \<Rightarrow> buffers
      | Some p \<Rightarrow>
          map trim_buffer
            [array_push (buffers ! 0) (ch0 p), array_push (buffers ! 1) (ch1 p),
             array_push (buffers ! 2) (ch2 p), array_push (buffers ! 3) (ch3 p)])"

definition initial_buffers :: "number list list" where
  "initial_buffers = [[], [], [], []]"

definition run_packets :: "PacketData list \<Rightarrow> number list list" where
  "run_packets ps = foldl packet_effect initial_buffers (map Some ps)"

text \<open>The value a packet contributes to channel \<open>ch\<close>.\<close>

definition channel_value :: "nat \<Rightarrow> PacketData \<Rightarrow> number" where
  "channel_value ch p = (if ch = 0 then ch0 p else if ch = 1 then ch1 p
                         else if ch = 2 then ch2 p else ch3 p)"

section \<open>startReadLoop (lib/serial/serialService.ts)\<close>

text \<open>
  The callbacks are sinks: the model records each invocation, in order. They are taken
  not to throw.
\<close>

datatype call = OnPacket PacketData | OnError js_error

text \<open>
  What happens while the loop is suspended in \<open>await reader.read()\<close>, its only
  suspension point: the read resolves with \<open>{value, done: false}\<close> (\<open>value\<close> a
  \<open>Uint8Array\<close>, or undefined), resolves with \<open>{done: true}\<close>, rejects, or the signal
  is aborted. On abort the listener \<open>onAbort\<close> calls \<open>reader.cancel()\<close>, which closes
  the stream and resolves the pending read with \<open>{done: true}\<close> (Streams Standard,
  ReadableStreamCancel).
\<close>

datatype event =
    ReadValue "byte list option"
  | ReadDone
  | ReadRejects reader_exn
  | Abort

text \<open>
  The state of one call: the local \<open>buffer\<close>, the optional \<open>signal\<close> with its
  \<open>aborted\<close> flag (\<open>None\<close> when no signal was passed), and the callback invocations
  made so far.
\<close>

record loop_state =
  buffer :: "byte list"
  signal :: "bool option"
  calls :: "call list"

text \<open>
  \<open>Returned\<close>: the promise of \<open>startReadLoop\<close> has settled. \<open>Pending\<close>: every event
  has been consumed and the loop is suspended in \<open>await reader.read()\<close>.
\<close>

datatype outcome = Returned | Pending

definition call_onError :: "bool \<Rightarrow> js_error \<Rightarrow> call list \<Rightarrow> call list" where
  "call_onError has_onError e cs = (if has_onError then cs @ [OnError e] else cs)"

text \<open>
  \<open>new ArrayBuffer(PACKET_SIZE)\<close> is zero-filled; \<open>new Uint8Array(ab).set(slice)\<close>
  overwrites its first bytes with the spliced ones, which come from
  \<open>buffer.splice(0, PACKET_SIZE)\<close> and are never more than the block holds.
\<close>

definition fresh_block :: "byte list \<Rightarrow> byte list" where
  "fresh_block spliced = spliced @ drop (length spliced) (replicate PACKET_SIZE 0)"

text \<open>The inner \<open>while (buffer.length >= PACKET_SIZE)\<close> loop.\<close>

function drain :: "bool \<Rightarrow> loop_state \<Rightarrow> loop_state" where
  "drain has_onError s =
     (if length (buffer s) \<ge> PACKET_SIZE
      then
        let spliced = take PACKET_SIZE (buffer s);
            s1 = s\<lparr>buffer := drop PACKET_SIZE (buffer s)\<rparr>;
            ab = fresh_block spliced
        in case parsePacket ab (Finite 0) of
             Inr data \<Rightarrow> drain has_onError (s1\<lparr>calls := calls s1 @ [OnPacket data]\<rparr>)
           | Inl e \<Rightarrow> drain has_onError (s1\<lparr>calls := call_onError has_onError e (calls s1)\<rparr>)
      else s)"
  by pat_completeness auto
termination
  by (relation "measure (\<lambda>(has_onError, s). length (buffer s))") (auto simp: PACKET_SIZE_def)

declare drain.simps [simp del]

text \<open>
  The outer \<open>while (true)\<close> loop with its \<open>catch\<close>, over the events that occur at
  the successive awaits. Without a signal nothing can be aborted, and an \<open>Abort\<close>
  event is passed over.
\<close>

fun read_loop :: "bool \<Rightarrow> loop_state \<Rightarrow> event list \<Rightarrow> outcome \<times> loop_state" where
  "read_loop has_onError s [] =
     (if signal s = Some True then (Returned, s) else (Pending, s))"
| "read_loop has_onError s (ev # evs) =
     (if signal s = Some True then (Returned, s)
      else
        case ev of
          ReadValue v \<Rightarrow>
            (case v of
               None \<Rightarrow> read_loop has_onError s evs
             | Some chunk \<Rightarrow>
                 read_loop has_onError
                   (drain has_onError (s\<lparr>buffer := buffer s @ chunk\<rparr>)) evs)
        | ReadDone \<Rightarrow> (Returned, s)
        | ReadRejects err \<Rightarrow>
            (Returned,
             if err \<noteq> AbortError \<and> has_onError
             then s\<lparr>calls := calls s @ [OnError (ReaderException err)]\<rparr>
             else s)
        | Abort \<Rightarrow>
            (if signal s = None then read_loop has_onError s evs
             else (Returned, s\<lparr>signal := Some True\<rparr>)))"

text \<open>
  \<open>startReadLoop port onPacket onError signal\<close>: \<open>readable\<close> says whether
  \<open>port.readable\<close> is set, \<open>has_onError\<close> whether \<open>onError\<close> was passed.
\<close>

definition startReadLoop :: "bool \<Rightarrow> bool \<Rightarrow> bool option \<Rightarrow> event list \<Rightarrow> outcome \<times> loop_state" where
  "startReadLoop readable has_onError sig evs =
     (if \<not> readable
      then (Returned,
            \<lparr>buffer = [], signal = sig,
             calls = call_onError has_onError NoReadableStream []\<rparr>)
      else read_loop has_onError \<lparr>buffer = [], signal = sig, calls = []\<rparr> evs)"

text \<open>
  The consecutive 16-byte frames of a byte sequence, in order; an incomplete tail is
  no frame.
\<close>

function frames :: "byte list \<Rightarrow> byte list list" where
  "frames bs = (if length bs < 16 then [] else take 16 bs # frames (drop 16 bs))"
  by pat_completeness auto
termination
  by (relation "measure length") auto

declare frames.simps [simp del]

text \<open>The bytes that remain after the last complete frame.\<close>

function leftover :: "byte list \<Rightarrow> byte list" where
  "leftover bs = (if length bs < 16 then bs else leftover (drop 16 bs))"
  by pat_completeness auto
termination
  by (relation "measure length") auto

declare leftover.simps [simp del]

text \<open>The events of a reader that delivers the given chunks, one per read.\<close>

definition deliver :: "byte list list \<Rightarrow> event list" where
  "deliver chunks = map (\<lambda>c. ReadValue (Some c)) chunks"

text \<open>An \<open>onError\<close> invocation made by the decode-failure \<open>catch\<close> of the inner loop.\<close>

fun is_decode_failure :: "call \<Rightarrow> bool" where
  "is_decode_failure (OnError (FrameTooShort off len)) = True"
| "is_decode_failure (OnError DataViewRangeError) = True"
| "is_decode_failure (OnError GetUint32RangeError) = True"
| "is_decode_failure c = False"

section \<open>Properties of the rounding\<close>

lemma pow2_powi: "pow2 k = 2 powi k"
  by (simp add: pow2_def power_int_def power_inverse inverse_eq_divide power_one_over)

lemma pow2_pos: "0 < pow2 k"
  by (simp add: pow2_powi)

lemma pow2_add: "pow2 (a + b) = pow2 a * pow2 b"
  by (simp add: pow2_powi power_int_add)

lemma pow2_mono: "a \<le> b \<Longrightarrow> pow2 a \<le> pow2 b"
  by (simp add: pow2_powi power_int_increasing)

lemma pow2_strict_mono: "a < b \<Longrightarrow> pow2 a < pow2 b"
  by (simp add: pow2_powi power_int_strict_increasing)

lemma pow2_less_imp: "pow2 a < pow2 b \<Longrightarrow> a < b"
  using pow2_mono [of b a] by (cases "a < b") auto

lemma pow2_nat: "pow2 (int n) = 2 ^ n"
  by (simp add: pow2_def)

lemma ilog2_bounds:
  assumes "0 < x"
  shows "pow2 (ilog2 x) \<le> x \<and> x < pow2 (ilog2 x + 1)"
proof -
  obtain p q where pq: "quotient_of x = (p, q)"
    by (cases "quotient_of x") auto
  have qpos: "0 < q" using pq by (rule quotient_of_denom_pos)
  have xeq: "x = of_int p / of_int q" using pq by (rule quotient_of_div)
  have ppos: "0 < p"
    using assms qpos unfolding xeq by (simp add: zero_less_divide_iff)
  define lp where "lp = floorlog 2 (nat p)"
  define lq where "lq = floorlog 2 (nat q)"
  have bp: "2 ^ (lp - 1) \<le> nat p \<and> nat p < 2 ^ lp"
    unfolding lp_def using ppos by (intro floorlog_bounds) auto
  have bq: "2 ^ (lq - 1) \<le> nat q \<and> nat q < 2 ^ lq"
    unfolding lq_def using qpos by (intro floorlog_bounds) auto
  have lp1: "1 \<le> lp"
    using bp ppos by (cases lp) auto
  have lq1: "1 \<le> lq"
    using bq qpos by (cases lq) auto
  have P: "(of_int p :: rat) = of_nat (nat p)" using ppos by simp
  have Q: "(of_int q :: rat) = of_nat (nat q)" using qpos by simp
  have Plo: "(2 :: rat) ^ (lp - 1) \<le> of_int p"
    unfolding P using bp by (metis of_nat_le_iff of_nat_numeral of_nat_power)
  have Phi: "of_int p < (2 :: rat) ^ lp"
    unfolding P using bp by (metis of_nat_less_iff of_nat_numeral of_nat_power)
  have Qlo: "(2 :: rat) ^ (lq - 1) \<le> of_int q"
    unfolding Q using bq by (metis of_nat_le_iff of_nat_numeral of_nat_power)
  have Qhi: "of_int q < (2 :: rat) ^ lq"
    unfolding Q using bq by (metis of_nat_less_iff of_nat_numeral of_nat_power)
  have Qpos: "(0 :: rat) < of_int q" using qpos by simp
  have Ppos: "(0 :: rat) < of_int p" using ppos by simp
  define k where "k = int lp - int lq"
  have up: "x < pow2 (k + 1)"
  proof -
    have "x < 2 ^ lp / of_int q"
      unfolding xeq using Phi Qpos by (simp add: divide_strict_right_mono)
    also have "\<dots> \<le> 2 ^ lp / 2 ^ (lq - 1)"
      using Qlo by (simp add: frac_le)
    also have "\<dots> = pow2 (int lp) / pow2 (int (lq - 1))"
      by (simp add: pow2_nat)
    also have "\<dots> = pow2 (k + 1)"
    proof -
      have "int lp = (k + 1) + int (lq - 1)" using lq1 by (simp add: k_def)
      then have "pow2 (int lp) = pow2 (k + 1) * pow2 (int (lq - 1))"
        by (simp only: pow2_add)
      then show ?thesis using pow2_pos [of "int (lq - 1)"] by simp
    qed
    finally show ?thesis .
  qed
  have lo: "pow2 (k - 1) < x"
  proof -
    have "pow2 (k - 1) = pow2 (int (lp - 1)) / pow2 (int lq)"
    proof -
      have "int (lp - 1) = (k - 1) + int lq" using lp1 by (simp add: k_def)
      then have "pow2 (int (lp - 1)) = pow2 (k - 1) * pow2 (int lq)"
        by (simp only: pow2_add)
      then show ?thesis using pow2_pos [of "int lq"] by simp
    qed
    also have "\<dots> = 2 ^ (lp - 1) / 2 ^ lq"
      by (simp add: pow2_nat)
    also have "\<dots> < 2 ^ (lp - 1) / of_int q"
      using Qhi Qpos by (simp add: divide_strict_left_mono)
    also have "\<dots> \<le> x"
      unfolding xeq using Plo Qpos by (simp add: divide_right_mono)
    finally show ?thesis .
  qed
  have il: "ilog2 x = (if pow2 k \<le> x then k else k - 1)"
    by (simp add: ilog2_def pq lp_def lq_def k_def Let_def bitlen_def)
  show ?thesis
  proof (cases "pow2 k \<le> x")
    case True
    with up il show ?thesis by simp
  next
    case False
    with lo il show ?thesis by simp
  qed
qed

lemma ilog2_mono:
  assumes "0 < x" and "x \<le> y"
  shows "ilog2 x \<le> ilog2 y"
proof -
  have "pow2 (ilog2 x) \<le> x" using ilog2_bounds [OF assms(1)] by simp
  also have "x \<le> y" by fact
  also have "y < pow2 (ilog2 y + 1)" using ilog2_bounds [of y] assms by simp
  finally have "ilog2 x < ilog2 y + 1" by (rule pow2_less_imp)
  then show ?thesis by simp
qed

lemma round_even_of_int: "round_even (of_int n) = n"
  by (simp add: round_even_def)

lemma round_even_lower: "\<lfloor>x\<rfloor> \<le> round_even x"
  by (simp add: round_even_def Let_def)

lemma round_even_upper: "round_even x \<le> \<lfloor>x\<rfloor> + 1"
  by (simp add: round_even_def Let_def)

lemma round_even_mono:
  assumes "x \<le> y"
  shows "round_even x \<le> round_even y"
proof (cases "\<lfloor>x\<rfloor> = \<lfloor>y\<rfloor>")
  case True
  have "x - of_int \<lfloor>x\<rfloor> \<le> y - of_int \<lfloor>y\<rfloor>"
    using assms True by simp
  then show ?thesis
    using True by (auto simp: round_even_def Let_def)
next
  case False
  have "\<lfloor>x\<rfloor> \<le> \<lfloor>y\<rfloor>" using assms by (rule floor_mono)
  with False have "\<lfloor>x\<rfloor> + 1 \<le> \<lfloor>y\<rfloor>" by simp
  then show ?thesis
    using round_even_upper [of x] round_even_lower [of y] by linarith
qed

lemma round_even_ge: "of_int a \<le> x \<Longrightarrow> a \<le> round_even x"
  using round_even_mono [of "of_int a" x] by (simp add: round_even_of_int)

lemma round_even_le: "x \<le> of_int b \<Longrightarrow> round_even x \<le> b"
  using round_even_mono [of x "of_int b"] by (simp add: round_even_of_int)

lemma fl_pos_eq:
  "0 < x \<Longrightarrow> fl x = of_int (round_even (x / pow2 (ilog2 x - 52))) * pow2 (ilog2 x - 52)"
  by (simp add: fl_def Let_def)

lemma fl_pos_bounds:
  assumes "0 < x"
  shows "pow2 (ilog2 x) \<le> fl x \<and> fl x \<le> pow2 (ilog2 x + 1)"
proof -
  define k where "k = ilog2 x"
  define e where "e = k - 52"
  define m where "m = x / pow2 e"
  have epos: "0 < pow2 e" by (rule pow2_pos)
  have p52: "pow2 52 = 2 ^ 52" and p53: "pow2 53 = 2 ^ 53"
    by (simp_all add: pow2_def)
  have "k = 52 + e" and "k + 1 = 53 + e"
    by (simp_all add: e_def)
  then have "pow2 k = pow2 52 * pow2 e" and "pow2 (k + 1) = pow2 53 * pow2 e"
    by (simp_all only: pow2_add)
  then have k_eq: "pow2 k = 2 ^ 52 * pow2 e" and k1_eq: "pow2 (k + 1) = 2 ^ 53 * pow2 e"
    by (simp_all only: p52 p53)
  have b: "pow2 k \<le> x" "x < pow2 (k + 1)"
    using ilog2_bounds [OF assms] by (simp_all add: k_def)
  have "of_int (2 ^ 52) \<le> m"
    using b(1) epos unfolding m_def k_eq by (simp add: pos_le_divide_eq)
  then have lo: "2 ^ 52 \<le> round_even m" by (rule round_even_ge)
  have "m \<le> of_int (2 ^ 53)"
    using b(2) epos unfolding m_def k1_eq by (simp add: pos_divide_le_eq)
  then have hi: "round_even m \<le> 2 ^ 53" by (rule round_even_le)
  have feq: "fl x = of_int (round_even m) * pow2 e"
    using assms by (simp add: fl_pos_eq m_def e_def k_def)
  have "(2 :: rat) ^ 52 \<le> of_int (round_even m)"
    using lo by (metis of_int_le_iff of_int_numeral of_int_power)
  then have l: "pow2 k \<le> fl x"
    unfolding feq k_eq using epos by simp
  have "of_int (round_even m) \<le> (2 :: rat) ^ 53"
    using hi by (metis of_int_le_iff of_int_numeral of_int_power)
  then have u: "fl x \<le> pow2 (k + 1)"
    unfolding feq k1_eq using epos by simp
  from l u show ?thesis by (simp add: k_def)
qed

lemma fl_pos: "0 < x \<Longrightarrow> 0 < fl x"
  using fl_pos_bounds [of x] pow2_pos [of "ilog2 x"] by linarith

lemma fl_neg: "fl (- x) = - fl x"
  by (simp add: fl_def Let_def)

lemma fl_nonneg: "0 \<le> x \<Longrightarrow> 0 \<le> fl x"
  using fl_pos [of x] by (cases "x = 0") (simp_all add: fl_def)

lemma fl_nonpos: "x \<le> 0 \<Longrightarrow> fl x \<le> 0"
  using fl_nonneg [of "- x"] by (simp add: fl_neg)

lemma fl_mono_pos:
  assumes "0 < x" and "x \<le> y"
  shows "fl x \<le> fl y"
proof -
  have ypos: "0 < y" using assms by simp
  have kk: "ilog2 x \<le> ilog2 y" using assms by (rule ilog2_mono)
  show ?thesis
  proof (cases "ilog2 x = ilog2 y")
    case True
    define e where "e = ilog2 y - 52"
    have epos: "0 < pow2 e" by (rule pow2_pos)
    have "x / pow2 e \<le> y / pow2 e"
      using assms(2) epos by (simp add: divide_right_mono)
    then have "round_even (x / pow2 e) \<le> round_even (y / pow2 e)"
      by (rule round_even_mono)
    then have "(of_int (round_even (x / pow2 e)) :: rat) \<le> of_int (round_even (y / pow2 e))"
      by simp
    then have "of_int (round_even (x / pow2 e)) * pow2 e \<le> of_int (round_even (y / pow2 e)) * pow2 e"
      using epos by (simp add: mult_right_mono)
    then show ?thesis
      using assms(1) ypos True by (simp add: fl_pos_eq e_def)
  next
    case False
    with kk have "ilog2 x + 1 \<le> ilog2 y" by simp
    then have "pow2 (ilog2 x + 1) \<le> pow2 (ilog2 y)" by (rule pow2_mono)
    then show ?thesis
      using fl_pos_bounds [OF assms(1)] fl_pos_bounds [OF ypos] by linarith
  qed
qed

lemma fl_mono:
  assumes "x \<le> y"
  shows "fl x \<le> fl y"
proof -
  consider (pos) "0 < x" | (neg) "y < 0" | (mid) "x \<le> 0" "0 \<le> y"
    by linarith
  then show ?thesis
  proof cases
    case pos
    then show ?thesis using assms by (rule fl_mono_pos)
  next
    case neg
    then have "fl (- y) \<le> fl (- x)"
      using assms by (intro fl_mono_pos) simp_all
    then show ?thesis by (simp add: fl_neg)
  next
    case mid
    then show ?thesis
      using fl_nonpos [of x] fl_nonneg [of y] by linarith
  qed
qed

lemma fl_0: "fl 0 = 0"
  by (simp add: fl_def)

lemma fl_Y_MAX: "fl (2 ^ 32) = 2 ^ 32"
  by code_simp

text \<open>The literal is the rounding of one twentieth; one tenth rounds to its known value.\<close>

lemma lit_0_05_rounded: "fl (1 / 20) = lit_0_05"
  by code_simp

lemma fl_one_tenth: "fl (1 / 10) = 3602879701896397 / 2 ^ 55"
  by code_simp

text \<open>Integers up to \<open>2 ^ 53\<close> are binary64 numbers.\<close>

lemma fl_int_exact_pos:
  assumes "0 < m" and "m < 2 ^ 53"
  shows "fl (of_int m) = of_int m"
proof -
  define x :: rat where "x = of_int m"
  have xpos: "0 < x" using assms(1) by (simp add: x_def)
  define k where "k = ilog2 x"
  have "pow2 k \<le> x" using ilog2_bounds [OF xpos] by (simp add: k_def)
  also have "x < pow2 53"
  proof -
    have "(of_int m :: rat) < of_int (2 ^ 53)" using assms(2) by (simp only: of_int_less_iff)
    then show ?thesis by (simp add: x_def pow2_def)
  qed
  finally have "k < 53" by (rule pow2_less_imp)
  define j where "j = nat (52 - k)"
  have e: "pow2 (k - 52) = 1 / 2 ^ j"
    using \<open>k < 53\<close> by (cases "k = 52") (simp_all add: pow2_def j_def)
  have "x / pow2 (k - 52) = of_int (m * 2 ^ j)"
    by (simp add: e x_def)
  then have "round_even (x / pow2 (k - 52)) = m * 2 ^ j"
    by (simp only: round_even_of_int)
  then have "fl x = of_int (m * 2 ^ j) * pow2 (k - 52)"
    using xpos by (simp add: fl_pos_eq k_def)
  also have "\<dots> = x"
    by (simp add: e x_def)
  finally show ?thesis by (simp add: x_def)
qed

lemma fl_2_53: "fl (2 ^ 53) = 2 ^ 53"
  by code_simp

lemma fl_nat_exact:
  assumes "n \<le> 2 ^ 53"
  shows "fl (of_nat n) = of_nat n"
proof -
  consider "n = 0" | "0 < n" "n < 2 ^ 53" | "n = 2 ^ 53"
    using assms by linarith
  then show ?thesis
  proof cases
    case 1
    then show ?thesis by (simp add: fl_0)
  next
    case 2
    then have "0 < int n" and "int n < 2 ^ 53" by simp_all
    then have "fl (of_int (int n)) = of_int (int n)" by (rule fl_int_exact_pos)
    then show ?thesis by simp
  next
    case 3
    then show ?thesis using fl_2_53 by simp
  qed
qed

lemma fl_16: "fl 16 = 16"
  by code_simp

section \<open>Properties of parsePacket\<close>

text \<open>
  An \<open>ArrayBuffer\<close> holds at most \<open>2 ^ 53 - 1\<close> bytes; the lemmas that need it assume
  \<open>length buf < 2 ^ 53\<close>.
\<close>

lemma guard_floor:
  assumes "0 \<le> r" and "length buf < 2 ^ 53"
    and "\<not> of_nat (length buf) < fl (r + 16)"
  shows "nat \<lfloor>r\<rfloor> + 16 \<le> length buf"
proof (rule ccontr)
  assume "\<not> nat \<lfloor>r\<rfloor> + 16 \<le> length buf"
  then have "length buf + 1 \<le> nat \<lfloor>r\<rfloor> + 16" by simp
  then have "(of_nat (length buf + 1) :: rat) \<le> of_nat (nat \<lfloor>r\<rfloor> + 16)"
    by (simp only: of_nat_le_iff)
  also have "\<dots> = of_int \<lfloor>r\<rfloor> + 16"
    using assms(1) by simp
  also have "\<dots> \<le> r + 16"
    by simp
  finally have "fl (of_nat (length buf + 1)) \<le> fl (r + 16)"
    by (rule fl_mono)
  moreover have "fl (of_nat (length buf + 1)) = of_nat (length buf + 1)"
    using assms(2) by (intro fl_nat_exact) simp
  ultimately have "of_nat (length buf) < fl (r + 16)"
    by simp
  with assms(3) show False by simp
qed

lemma guard_exact:
  assumes "length buf < 2 ^ 53"
  shows "of_nat (length buf) < fl (of_nat n + 16) \<longleftrightarrow> length buf < n + 16"
proof
  assume "of_nat (length buf) < fl (of_nat n + 16)"
  show "length buf < n + 16"
  proof (rule ccontr)
    assume "\<not> length buf < n + 16"
    then have le: "n + 16 \<le> length buf" by simp
    then have "n + 16 \<le> 2 ^ 53" using assms by simp
    then have "fl (of_nat (n + 16)) = of_nat (n + 16)" by (rule fl_nat_exact)
    then have "fl (of_nat n + 16) = (of_nat (n + 16) :: rat)" by simp
    also have "\<dots> \<le> of_nat (length buf)" using le by (simp only: of_nat_le_iff)
    finally show False using \<open>of_nat (length buf) < fl (of_nat n + 16)\<close> by simp
  qed
next
  assume "length buf < n + 16"
  then have "\<not> nat \<lfloor>of_nat n :: rat\<rfloor> + 16 \<le> length buf" by simp
  then show "of_nat (length buf) < fl (of_nat n + 16)"
    using guard_floor [of "of_nat n" buf] assms by auto
qed

lemma ToIndex_nonneg:
  assumes "0 \<le> r" and "\<lfloor>r\<rfloor> < 2 ^ 53"
  shows "ToIndex (Finite r) = Some (nat \<lfloor>r\<rfloor>)"
  using assms by (simp add: ToIndex_def Let_def)

lemma ToIndex_PACKET_SIZE: "ToIndex (Finite (of_nat PACKET_SIZE)) = Some 16"
  by (simp add: ToIndex_def PACKET_SIZE_def)

lemma parse_view:
  assumes "off + 16 \<le> length buf"
  shows "(case getUint32 \<lparr>dv_buffer = buf, dv_byteOffset = off, dv_byteLength = 16\<rparr> 0 True of
            Inl e \<Rightarrow> Inl e
          | Inr c0 \<Rightarrow>
              (case getUint32 \<lparr>dv_buffer = buf, dv_byteOffset = off, dv_byteLength = 16\<rparr>
                      (int BYTES_PER_CHANNEL) True of
                 Inl e \<Rightarrow> Inl e
               | Inr c1 \<Rightarrow>
                   (case getUint32 \<lparr>dv_buffer = buf, dv_byteOffset = off, dv_byteLength = 16\<rparr>
                           (int (BYTES_PER_CHANNEL * 2)) True of
                      Inl e \<Rightarrow> Inl e
                    | Inr c2 \<Rightarrow>
                        (case getUint32 \<lparr>dv_buffer = buf, dv_byteOffset = off, dv_byteLength = 16\<rparr>
                                (int (BYTES_PER_CHANNEL * 3)) True of
                           Inl e \<Rightarrow> Inl e
                         | Inr c3 \<Rightarrow> Inr \<lparr>ch0 = c0, ch1 = c1, ch2 = c2, ch3 = c3\<rparr>))))
         = (Inr (decode_at buf off) :: js_error + PacketData)"
  by (simp add: getUint32_def BYTES_PER_CHANNEL_def decode_at_def le32_at_def Let_def)

lemma parsePacket_nonneg:
  assumes "0 \<le> r" and "length buf < 2 ^ 53"
  shows "parsePacket buf (Finite r) =
    (if of_nat (length buf) < fl (r + 16)
     then Inl (FrameTooShort (Finite r) (length buf))
     else Inr (decode_at buf (nat \<lfloor>r\<rfloor>)))"
proof (cases "of_nat (length buf) < fl (r + 16)")
  case True
  then show ?thesis
    by (simp add: parsePacket_def js_less_def js_add_def PACKET_SIZE_def)
next
  case False
  have le: "nat \<lfloor>r\<rfloor> + 16 \<le> length buf"
    using assms False by (rule guard_floor)
  define t where "t = \<lfloor>r\<rfloor>"
  have "0 \<le> t" using assms(1) by (simp add: t_def)
  moreover have "nat t < 2 ^ 53" using le assms(2) by (simp add: t_def)
  ultimately have "t < 2 ^ 53" by simp
  then have "\<lfloor>r\<rfloor> < 2 ^ 53" by (simp only: t_def)
  then have ti: "ToIndex (Finite r) = Some (nat \<lfloor>r\<rfloor>)"
    using assms(1) by (intro ToIndex_nonneg)
  have dv: "new_DataView buf (Finite r) (Finite (of_nat PACKET_SIZE))
      = Inr \<lparr>dv_buffer = buf, dv_byteOffset = nat \<lfloor>r\<rfloor>, dv_byteLength = 16\<rparr>"
    using le by (simp add: new_DataView_def ti ToIndex_PACKET_SIZE)
  have g: "\<not> js_less (of_nat (length buf)) (js_add (Finite r) (of_nat PACKET_SIZE))"
    using False by (simp add: js_less_def js_add_def PACKET_SIZE_def)
  show ?thesis
    using False by (simp add: parsePacket_def g dv parse_view [OF le])
qed

lemma parsePacket_zero:
  assumes "16 \<le> length buf"
  shows "parsePacket buf (Finite 0) = Inr (decode_at buf 0)"
proof -
  have ti: "ToIndex (Finite 0) = Some 0"
    by (simp add: ToIndex_def)
  have dv: "new_DataView buf (Finite 0) (Finite (of_nat PACKET_SIZE))
      = Inr \<lparr>dv_buffer = buf, dv_byteOffset = 0, dv_byteLength = 16\<rparr>"
    using assms by (simp add: new_DataView_def ti ToIndex_PACKET_SIZE)
  have g: "\<not> js_less (of_nat (length buf)) (js_add (Finite 0) (of_nat PACKET_SIZE))"
    using assms by (simp add: js_less_def js_add_def PACKET_SIZE_def fl_16)
  show ?thesis
    using parse_view [of 0 buf] assms by (simp add: parsePacket_def g dv)
qed

lemma parsePacket_byte_offset:
  assumes "length buf < 2 ^ 53"
  shows "parsePacket buf (Finite (of_nat n)) =
    (if length buf < n + 16
     then Inl (FrameTooShort (Finite (of_nat n)) (length buf))
     else Inr (decode_at buf n))"
  using parsePacket_nonneg [of "of_nat n" buf] assms guard_exact [OF assms, of n]
  by simp

lemma parsePacket_no_getUint32_error:
  "parsePacket buf offset \<noteq> Inl GetUint32RangeError"
proof (cases "js_less (of_nat (length buf)) (js_add offset (of_nat PACKET_SIZE))")
  case True
  then show ?thesis by (simp add: parsePacket_def)
next
  case False
  show ?thesis
  proof (cases "new_DataView buf offset (Finite (of_nat PACKET_SIZE))")
    case (Inl e)
    then have "e = DataViewRangeError"
      by (auto simp: new_DataView_def split: option.splits if_splits)
    with Inl False show ?thesis by (simp add: parsePacket_def)
  next
    case (Inr view)
    then obtain off where v: "view = \<lparr>dv_buffer = buf, dv_byteOffset = off, dv_byteLength = 16\<rparr>"
      and le: "off + 16 \<le> length buf"
      by (auto simp: new_DataView_def ToIndex_PACKET_SIZE split: option.splits if_splits)
    show ?thesis
      using False Inr parse_view [OF le] by (simp add: parsePacket_def v)
  qed
qed

text \<open>
  Offsets that are no byte offsets: \<open>-0.5\<close> passes the guard of a 16-byte buffer and is
  truncated to 0 by the \<open>DataView\<close> constructor; \<open>-1\<close> passes the guard and is
  rejected by the constructor; \<open>NaN\<close> passes every guard and is read as 0.
\<close>

lemma fl_31_halves: "fl (31 / 2) = 31 / 2"
  by code_simp

lemma fl_15: "fl 15 = 15"
  by code_simp

lemma parsePacket_minus_half:
  assumes "length buf = 16"
  shows "parsePacket buf (Finite (- (1 / 2))) = Inr (decode_at buf 0)"
proof -
  have ti: "ToIndex (Finite (- (1 / 2))) = Some 0"
    by (simp add: ToIndex_def Let_def)
  have dv: "new_DataView buf (Finite (- (1 / 2))) (Finite (of_nat PACKET_SIZE))
      = Inr \<lparr>dv_buffer = buf, dv_byteOffset = 0, dv_byteLength = 16\<rparr>"
    using assms by (simp add: new_DataView_def ti ToIndex_PACKET_SIZE)
  have g: "\<not> js_less (of_nat (length buf)) (js_add (Finite (- (1 / 2))) (of_nat PACKET_SIZE))"
    using assms by (simp add: js_less_def js_add_def PACKET_SIZE_def fl_31_halves)
  have le: "0 + 16 \<le> length buf"
    using assms by simp
  show ?thesis
    using parse_view [OF le] by (simp add: parsePacket_def g dv)
qed

lemma parsePacket_minus_one:
  assumes "length buf = 16"
  shows "parsePacket buf (Finite (- 1)) = Inl DataViewRangeError"
proof -
  have ti: "ToIndex (Finite (- 1)) = None"
    by (simp add: ToIndex_def Let_def)
  have g: "\<not> js_less (of_nat (length buf)) (js_add (Finite (- 1)) (of_nat PACKET_SIZE))"
    using assms by (simp add: js_less_def js_add_def PACKET_SIZE_def fl_15)
  show ?thesis
    by (simp add: parsePacket_def g new_DataView_def ti)
qed

lemma parsePacket_NaN:
  "parsePacket buf NaN =
     (if length buf < 16 then Inl DataViewRangeError else Inr (decode_at buf 0))"
proof -
  have ti: "ToIndex NaN = Some 0"
    by (simp add: ToIndex_def)
  have g: "\<not> js_less (of_nat (length buf)) (js_add NaN (of_nat PACKET_SIZE))"
    by (simp add: js_less_def js_add_def)
  show ?thesis
  proof (cases "length buf < 16")
    case True
    then have "new_DataView buf NaN (Finite (of_nat PACKET_SIZE)) = Inl DataViewRangeError"
      by (simp add: new_DataView_def ti ToIndex_PACKET_SIZE)
    with True show ?thesis
      by (simp add: parsePacket_def g)
  next
    case False
    then have le: "0 + 16 \<le> length buf" by simp
    have dv: "new_DataView buf NaN (Finite (of_nat PACKET_SIZE))
        = Inr \<lparr>dv_buffer = buf, dv_byteOffset = 0, dv_byteLength = 16\<rparr>"
      using False by (simp add: new_DataView_def ti ToIndex_PACKET_SIZE)
    show ?thesis
      using False parse_view [OF le] by (simp add: parsePacket_def g dv)
  qed
qed

lemma decode_at_cong:
  assumes "\<forall>i. off \<le> i \<and> i < off + 16 \<longrightarrow> buf ! i = buf' ! i"
  shows "decode_at buf off = decode_at buf' off"
  using assms by (simp add: decode_at_def le32_at_def)

subsection \<open>Little-endian digits\<close>

lemma le_digits:
  fixes n :: nat
  assumes "n < 2 ^ 32"
  shows "n mod 256 + 2 ^ 8 * (n div 256 mod 256) + 2 ^ 16 * (n div 65536 mod 256)
           + 2 ^ 24 * (n div 16777216 mod 256) = n"
proof -
  define a where "a = n div 256"
  define b where "b = a div 256"
  define c where "c = b div 256"
  have d1: "n div 65536 = b"
    unfolding a_def b_def by (simp add: div_mult2_eq [symmetric])
  have d2: "n div 16777216 = c"
    unfolding a_def b_def c_def by (simp add: div_mult2_eq [symmetric])
  have "c < 256"
    using assms unfolding d2 [symmetric] by simp
  then have e3: "c mod 256 = c" by simp
  have e0: "n = 256 * a + n mod 256" unfolding a_def by simp
  have e1: "a = 256 * b + a mod 256" unfolding b_def by simp
  have e2: "b = 256 * c + b mod 256" unfolding c_def by simp
  have "n mod 256 + 256 * (a mod 256) + 65536 * (b mod 256) + 16777216 * c = n"
    using e0 e1 e2 by linarith
  then show ?thesis
    unfolding d1 d2 e3 a_def [symmetric] by simp
qed

lemma uint32_of_le_bytes:
  "uint32_of_bytes (ucast w) (ucast (drop_bit 8 w)) (ucast (drop_bit 16 w))
     (ucast (drop_bit 24 w)) = unat (w :: 32 word)"
proof -
  have lt: "unat w < 2 ^ 32" using unsigned_less [of w] by simp
  have b0: "unat (ucast w :: byte) = unat w mod 256"
    by (simp add: unsigned_ucast_eq take_bit_eq_mod)
  have b1: "unat (ucast (drop_bit 8 w) :: byte) = unat w div 256 mod 256"
    by (simp add: unsigned_ucast_eq unat_drop_bit_eq take_bit_eq_mod drop_bit_eq_div unat_div)
  have b2: "unat (ucast (drop_bit 16 w) :: byte) = unat w div 65536 mod 256"
    by (simp add: unsigned_ucast_eq unat_drop_bit_eq take_bit_eq_mod drop_bit_eq_div unat_div)
  have b3: "unat (ucast (drop_bit 24 w) :: byte) = unat w div 16777216 mod 256"
    by (simp add: unsigned_ucast_eq unat_drop_bit_eq take_bit_eq_mod drop_bit_eq_div unat_div)
  show ?thesis
    unfolding uint32_of_bytes_def b0 b1 b2 b3 by (rule le_digits [OF lt])
qed

lemma le32_at_encode:
  "length pre = n \<Longrightarrow> le32_at (pre @ le_bytes w @ post) n = of_nat (unat w)"
  using uint32_of_le_bytes [of w]
  by (simp add: le32_at_def le_bytes_def nth_append)

subsection \<open>Claims about parsePacket\<close>

text \<open>
  Claim C2. For every four unsigned 32-bit values, \<open>parsePacket\<close> applied to the
  16-byte block that holds them little-endian at offsets 0, 4, 8 and 12 returns a
  \<open>PacketData\<close> whose \<open>ch0\<close>, \<dots>, \<open>ch3\<close> are exactly those values.
\<close>

theorem parsePacket_roundtrip:
  "parsePacket (encode_block a b c d) (Finite 0) =
     Inr \<lparr>ch0 = of_nat (unat a), ch1 = of_nat (unat b),
          ch2 = of_nat (unat c), ch3 = of_nat (unat d)\<rparr>"
proof -
  have len: "length (encode_block a b c d) = 16"
    by (simp add: encode_block_def le_bytes_def)
  have c0: "le32_at (encode_block a b c d) 0 = of_nat (unat a)"
    using le32_at_encode [of "[]" 0 a "le_bytes b @ le_bytes c @ le_bytes d"]
    by (simp add: encode_block_def)
  have c1: "le32_at (encode_block a b c d) 4 = of_nat (unat b)"
    using le32_at_encode [of "le_bytes a" 4 b "le_bytes c @ le_bytes d"]
    by (simp add: encode_block_def le_bytes_def)
  have c2: "le32_at (encode_block a b c d) 8 = of_nat (unat c)"
    using le32_at_encode [of "le_bytes a @ le_bytes b" 8 c "le_bytes d"]
    by (simp add: encode_block_def le_bytes_def)
  have c3: "le32_at (encode_block a b c d) 12 = of_nat (unat d)"
    using le32_at_encode [of "le_bytes a @ le_bytes b @ le_bytes c" 12 d "[]"]
    by (simp add: encode_block_def le_bytes_def)
  show ?thesis
    using parsePacket_zero [of "encode_block a b c d"] len
    by (simp add: decode_at_def c0 c1 c2 c3)
qed

text \<open>
  Claim C5. For a byte offset, that is a non-negative integer \<open>n\<close>, \<open>parsePacket\<close>
  fails if and only if \<open>byteLength < offset + 16\<close>, and then with its own too-short
  \<open>RangeError\<close>; under \<open>byteLength \<ge> offset + 16\<close> it returns the packet decoded from
  the bytes \<open>[offset, offset + 16)\<close>, all of them inside the buffer. A failure is a
  value \<open>Inl\<close>, which carries no \<open>PacketData\<close>. The same holds for every finite offset
  \<open>r \<ge> 0\<close>, with the guard's own comparison and the view at \<open>\<lfloor>r\<rfloor>\<close>. For no
  offset at all does the range check of \<open>getUint32\<close> fire.
\<close>

theorem parsePacket_fails_iff:
  assumes "length buf < 2 ^ 53"
  shows "(isl (parsePacket buf (Finite (of_nat n))) \<longleftrightarrow> length buf < n + PACKET_SIZE)
   \<and> (length buf < n + PACKET_SIZE \<longrightarrow>
        parsePacket buf (Finite (of_nat n)) = Inl (FrameTooShort (Finite (of_nat n)) (length buf)))
   \<and> (n + PACKET_SIZE \<le> length buf \<longrightarrow>
        parsePacket buf (Finite (of_nat n)) = Inr (decode_at buf n)
        \<and> n + 15 < length buf)
   \<and> (0 \<le> r \<longrightarrow>
        (isl (parsePacket buf (Finite r))
           \<longleftrightarrow> js_less (of_nat (length buf)) (js_add (Finite r) (of_nat PACKET_SIZE)))
        \<and> (\<not> isl (parsePacket buf (Finite r)) \<longrightarrow>
             parsePacket buf (Finite r) = Inr (decode_at buf (nat \<lfloor>r\<rfloor>))
             \<and> nat \<lfloor>r\<rfloor> + 15 < length buf))
   \<and> parsePacket buf offset \<noteq> Inl GetUint32RangeError"
proof -
  note bo = parsePacket_byte_offset [OF assms, of n]
  have c1: "isl (parsePacket buf (Finite (of_nat n))) \<longleftrightarrow> length buf < n + PACKET_SIZE"
    unfolding bo by (simp add: PACKET_SIZE_def)
  have c2: "length buf < n + PACKET_SIZE \<longrightarrow>
        parsePacket buf (Finite (of_nat n)) = Inl (FrameTooShort (Finite (of_nat n)) (length buf))"
    unfolding bo by (simp add: PACKET_SIZE_def)
  have c3: "n + PACKET_SIZE \<le> length buf \<longrightarrow>
        parsePacket buf (Finite (of_nat n)) = Inr (decode_at buf n)
        \<and> n + 15 < length buf"
    unfolding bo by (simp add: PACKET_SIZE_def)
  have c4: "0 \<le> r \<longrightarrow>
        (isl (parsePacket buf (Finite r))
           \<longleftrightarrow> js_less (of_nat (length buf)) (js_add (Finite r) (of_nat PACKET_SIZE)))
        \<and> (\<not> isl (parsePacket buf (Finite r)) \<longrightarrow>
             parsePacket buf (Finite r) = Inr (decode_at buf (nat \<lfloor>r\<rfloor>))
             \<and> nat \<lfloor>r\<rfloor> + 15 < length buf)"
  proof
    assume r: "0 \<le> r"
    note nn = parsePacket_nonneg [OF r assms]
    show "(isl (parsePacket buf (Finite r))
           \<longleftrightarrow> js_less (of_nat (length buf)) (js_add (Finite r) (of_nat PACKET_SIZE)))
        \<and> (\<not> isl (parsePacket buf (Finite r)) \<longrightarrow>
             parsePacket buf (Finite r) = Inr (decode_at buf (nat \<lfloor>r\<rfloor>))
             \<and> nat \<lfloor>r\<rfloor> + 15 < length buf)"
    proof (cases "of_nat (length buf) < fl (r + 16)")
      case True
      then show ?thesis
        unfolding nn by (simp add: js_less_def js_add_def PACKET_SIZE_def)
    next
      case False
      have "nat \<lfloor>r\<rfloor> + 16 \<le> length buf"
        using r assms False by (rule guard_floor)
      then show ?thesis
        unfolding nn using False by (simp add: js_less_def js_add_def PACKET_SIZE_def)
    qed
  qed
  have c5: "parsePacket buf offset \<noteq> Inl GetUint32RangeError"
    by (rule parsePacket_no_getUint32_error)
  from c1 c2 c3 c4 c5 show ?thesis
    by (intro conjI)
qed

theorem parsePacket_fails_iff_witness:
  "parsePacket (replicate 20 1) (Finite 4) = Inr (decode_at (replicate 20 1) 4)
   \<and> isl (parsePacket (replicate 15 (1 :: byte)) (Finite 0))
   \<and> parsePacket (replicate 17 1) (Finite (1 / 2)) = Inr (decode_at (replicate 17 1) 0)"
proof -
  have h20: "length (replicate 20 (1 :: byte)) < 2 ^ 53"
    and h15: "length (replicate 15 (1 :: byte)) < 2 ^ 53"
    and h17: "length (replicate 17 (1 :: byte)) < 2 ^ 53"
    by simp_all
  have a: "parsePacket (replicate 20 1) (Finite 4) = Inr (decode_at (replicate 20 1) 4)"
    using parsePacket_fails_iff [OF h20, of 4, THEN conjunct2, THEN conjunct2, THEN conjunct1]
    by (simp add: PACKET_SIZE_def)
  have b: "isl (parsePacket (replicate 15 (1 :: byte)) (Finite 0))"
    using parsePacket_fails_iff [OF h15, of 0, THEN conjunct1]
    by (simp add: PACKET_SIZE_def)
  have half: "fl (33 / 2) = 33 / 2"
    by code_simp
  have c: "parsePacket (replicate 17 1) (Finite (1 / 2)) = Inr (decode_at (replicate 17 1) 0)"
    using parsePacket_fails_iff [OF h17, where r = "1 / 2",
        THEN conjunct2, THEN conjunct2, THEN conjunct2, THEN conjunct1]
    by (simp add: PACKET_SIZE_def js_less_def js_add_def half)
  from a b c show ?thesis
    by (intro conjI)
qed

text \<open>
  Claim C10. \<open>parsePacket\<close> accepts blocks longer than 16 bytes: for a byte offset
  \<open>n\<close> and every buffer with \<open>byteLength \<ge> offset + 16\<close>, however long, it succeeds
  with the packet decoded from the bytes \<open>[offset, offset + 16)\<close>, and any other buffer
  of sufficient length that agrees with it on those bytes gives the same result.
\<close>

theorem parsePacket_accepts_longer:
  assumes "length buf < 2 ^ 53" and "length buf' < 2 ^ 53"
    and "n + PACKET_SIZE \<le> length buf"
    and "n + PACKET_SIZE \<le> length buf'"
    and "\<forall>i. n \<le> i \<and> i < n + PACKET_SIZE \<longrightarrow> buf ! i = buf' ! i"
  shows "parsePacket buf (Finite (of_nat n)) = Inr (decode_at buf n)
         \<and> parsePacket buf' (Finite (of_nat n)) = parsePacket buf (Finite (of_nat n))"
proof -
  have eq: "decode_at buf n = decode_at buf' n"
    using assms(5) by (intro decode_at_cong) (simp add: PACKET_SIZE_def)
  show ?thesis
    using assms(3,4)
    by (simp add: parsePacket_byte_offset [OF assms(1)] parsePacket_byte_offset [OF assms(2)]
        PACKET_SIZE_def eq)
qed

theorem parsePacket_accepts_longer_witness:
  "parsePacket (replicate 3 9 @ encode_block 1 2 3 4 @ replicate 5 9) (Finite 3)
     = Inr \<lparr>ch0 = 1, ch1 = 2, ch2 = 3, ch3 = 4\<rparr>
   \<and> parsePacket (replicate 3 0 @ encode_block 1 2 3 4) (Finite 3)
     = parsePacket (replicate 3 9 @ encode_block 1 2 3 4 @ replicate 5 9) (Finite 3)"
proof -
  let ?b = "replicate 3 (9 :: byte) @ encode_block 1 2 3 4 @ replicate 5 9"
  let ?b' = "replicate 3 (0 :: byte) @ encode_block 1 2 3 4"
  have h1: "length ?b < 2 ^ 53" and h1': "length ?b' < 2 ^ 53"
    by (simp_all add: encode_block_def le_bytes_def)
  have h2: "3 + PACKET_SIZE \<le> length ?b"
    by (simp add: PACKET_SIZE_def encode_block_def le_bytes_def)
  have h3: "3 + PACKET_SIZE \<le> length ?b'"
    by (simp add: PACKET_SIZE_def encode_block_def le_bytes_def)
  have h4: "\<forall>i. 3 \<le> i \<and> i < 3 + PACKET_SIZE \<longrightarrow> ?b ! i = ?b' ! i"
  proof (intro allI impI)
    fix i
    assume "3 \<le> i \<and> i < 3 + PACKET_SIZE"
    then have "3 \<le> i" and "i < 3 + length (encode_block 1 2 3 4)"
      by (simp_all add: PACKET_SIZE_def encode_block_def le_bytes_def)
    then show "?b ! i = ?b' ! i"
      by (auto simp: nth_append)
  qed
  have d: "decode_at ?b 3 = \<lparr>ch0 = 1, ch1 = 2, ch2 = 3, ch3 = 4\<rparr>"
    by (simp add: decode_at_def le32_at_def encode_block_def le_bytes_def
        uint32_of_bytes_def nth_append)
  show ?thesis
    using parsePacket_accepts_longer [OF h1 h1' h2 h3 h4] d by simp
qed

section \<open>Properties of the channel buffers and the chart data\<close>

lemma buildChartData_loop_eq:
  "i \<le> POINTS \<Longrightarrow>
   buildChartData_loop b i data =
     data @ map (\<lambda>j. \<lparr>point = j, value = (if j < length b then Some (b ! j) else None)\<rparr>)
              [i..<POINTS]"
proof (induction b i data rule: buildChartData_loop.induct)
  case (1 b i data)
  show ?case
  proof (cases "i < POINTS")
    case True
    then have "[i..<POINTS] = i # [i + 1..<POINTS]"
      by (simp add: upt_conv_Cons)
    with True "1.IH" show ?thesis
      by (subst buildChartData_loop.simps) simp
  next
    case False
    with "1.prems" show ?thesis
      by (subst buildChartData_loop.simps) simp
  qed
qed

lemma buildChartData_eq:
  "buildChartData b =
     map (\<lambda>j. \<lparr>point = j, value = (if j < length b then Some (b ! j) else None)\<rparr>) [0..<POINTS]"
  by (simp add: buildChartData_def buildChartData_loop_eq)

lemma length_buildChartData: "length (buildChartData b) = POINTS"
  by (simp add: buildChartData_eq)

lemma nth_buildChartData:
  "i < POINTS \<Longrightarrow>
   buildChartData b ! i = \<lparr>point = i, value = (if i < length b then Some (b ! i) else None)\<rparr>"
  by (simp add: buildChartData_eq)

lemma values_buildChartData_full:
  "length b = POINTS \<Longrightarrow> map value (buildChartData b) = map Some b"
  by (rule nth_equalityI) (simp_all add: buildChartData_eq)

lemma push_trim:
  "trim_buffer (array_push b v) = (if length b < POINTS then b @ [v] else tl b @ [v])"
  by (cases b) (auto simp: trim_buffer_def array_push_def array_shift_def POINTS_def)

lemma packet_effect_nth:
  "ch < CHANNEL_COUNT \<Longrightarrow>
   packet_effect bufs (Some p) ! ch = trim_buffer (array_push (bufs ! ch) (channel_value ch p))"
proof -
  assume "ch < CHANNEL_COUNT"
  then consider "ch = 0" | "ch = 1" | "ch = 2" | "ch = 3"
    unfolding CHANNEL_COUNT_def by linarith
  then show ?thesis
    by cases (simp_all add: packet_effect_def channel_value_def)
qed

lemma run_packets_snoc:
  "run_packets (ps @ [p]) = packet_effect (run_packets ps) (Some p)"
  by (simp add: run_packets_def)

lemma drop_window_snoc:
  "trim_buffer (array_push (drop (length vs - POINTS) vs) v)
     = drop (length (vs @ [v]) - POINTS) (vs @ [v])"
proof (cases "length vs < POINTS")
  case True
  then show ?thesis by (simp add: push_trim)
next
  case False
  then have "length vs - POINTS + 1 = Suc (length vs) - POINTS" by simp
  moreover have "tl (drop (length vs - POINTS) vs) = drop (length vs - POINTS + 1) vs"
    by (simp add: drop_Suc tl_drop)
  ultimately show ?thesis
    using False by (simp add: push_trim POINTS_def)
qed

lemma run_packets_nth:
  "ch < CHANNEL_COUNT \<Longrightarrow>
   run_packets ps ! ch = drop (length ps - POINTS) (map (channel_value ch) ps)"
proof (induction ps rule: rev_induct)
  case Nil
  then consider "ch = 0" | "ch = 1" | "ch = 2" | "ch = 3"
    unfolding CHANNEL_COUNT_def by linarith
  then show ?case
    by cases (simp_all add: run_packets_def initial_buffers_def)
next
  case (snoc p ps)
  show ?case
    using drop_window_snoc [of "map (channel_value ch) ps" "channel_value ch p"]
    by (simp add: run_packets_snoc packet_effect_nth snoc)
qed

text \<open>
  Claim C3. After any sequence of packets, the buffer of each channel is the list of
  the last (at most 20) values pushed to it, oldest first: its length never exceeds 20,
  and a push onto a full buffer removes exactly the oldest element. For every buffer
  \<open>b\<close>, \<open>buildChartData b\<close> has exactly 20 entries, entry \<open>i\<close> holding \<open>b ! i\<close>
  when \<open>i < length b\<close> and null otherwise. After more than 20 pushes all 20 entries
  are present and are the last 20 pushed values, oldest first.
\<close>

theorem window_fifo_snapshot:
  assumes "ch < CHANNEL_COUNT"
  shows "run_packets ps ! ch = drop (length ps - 20) (map (channel_value ch) ps)
    \<and> length (run_packets ps ! ch) \<le> 20
    \<and> run_packets (ps @ [p]) ! ch =
        (if length (run_packets ps ! ch) < 20
         then run_packets ps ! ch @ [channel_value ch p]
         else tl (run_packets ps ! ch) @ [channel_value ch p])
    \<and> length (buildChartData b) = 20
    \<and> (\<forall>i < 20. buildChartData b ! i =
          \<lparr>point = i, value = (if i < length b then Some (b ! i) else None)\<rparr>)
    \<and> (20 < length ps \<longrightarrow>
          map value (buildChartData (run_packets ps ! ch))
            = map Some (drop (length ps - 20) (map (channel_value ch) ps))
          \<and> length (drop (length ps - 20) (map (channel_value ch) ps)) = 20)"
proof -
  have a: "run_packets ps ! ch = drop (length ps - 20) (map (channel_value ch) ps)"
    using run_packets_nth [OF assms, of ps] by (simp add: POINTS_def)
  have b: "length (run_packets ps ! ch) \<le> 20"
    unfolding a by simp
  have c: "run_packets (ps @ [p]) ! ch =
        (if length (run_packets ps ! ch) < 20
         then run_packets ps ! ch @ [channel_value ch p]
         else tl (run_packets ps ! ch) @ [channel_value ch p])"
    using assms by (simp add: run_packets_snoc packet_effect_nth push_trim POINTS_def)
  have d: "length (buildChartData b) = 20"
    by (simp add: length_buildChartData POINTS_def)
  have e: "\<forall>i < 20. buildChartData b ! i =
          \<lparr>point = i, value = (if i < length b then Some (b ! i) else None)\<rparr>"
    using nth_buildChartData [of _ b] by (simp add: POINTS_def)
  have f: "20 < length ps \<longrightarrow>
          map value (buildChartData (run_packets ps ! ch))
            = map Some (drop (length ps - 20) (map (channel_value ch) ps))
          \<and> length (drop (length ps - 20) (map (channel_value ch) ps)) = 20"
  proof
    assume n: "20 < length ps"
    then have "length (run_packets ps ! ch) = POINTS"
      unfolding a by (simp add: POINTS_def)
    then have "map value (buildChartData (run_packets ps ! ch)) = map Some (run_packets ps ! ch)"
      by (rule values_buildChartData_full)
    then show "map value (buildChartData (run_packets ps ! ch))
            = map Some (drop (length ps - 20) (map (channel_value ch) ps))
          \<and> length (drop (length ps - 20) (map (channel_value ch) ps)) = 20"
      using n by (simp add: a)
  qed
  from a b c d e f show ?thesis by (intro conjI)
qed

theorem window_fifo_snapshot_witness:
  "(1 :: nat) < CHANNEL_COUNT
   \<and> 20 < length (replicate 3 \<lparr>ch0 = 1, ch1 = 2, ch2 = 3, ch3 = 4\<rparr>
                    @ replicate 20 \<lparr>ch0 = 5, ch1 = 6, ch2 = 7, ch3 = 8\<rparr>)
   \<and> map value (buildChartData (run_packets
          (replicate 3 \<lparr>ch0 = 1, ch1 = 2, ch2 = 3, ch3 = 4\<rparr>
           @ replicate 20 \<lparr>ch0 = 5, ch1 = 6, ch2 = 7, ch3 = 8\<rparr>) ! 1))
       = replicate 20 (Some 6)
   \<and> buildChartData [7] ! 0 = \<lparr>point = 0, value = Some 7\<rparr>
   \<and> buildChartData [7] ! 1 = \<lparr>point = 1, value = None\<rparr>"
proof -
  let ?ps = "replicate 3 \<lparr>ch0 = 1, ch1 = 2, ch2 = 3, ch3 = 4\<rparr>
             @ replicate 20 \<lparr>ch0 = 5, ch1 = 6, ch2 = 7, ch3 = 8\<rparr>"
  have h: "(1 :: nat) < CHANNEL_COUNT"
    by (simp add: CHANNEL_COUNT_def)
  have len: "20 < length ?ps"
    by simp
  note t = window_fifo_snapshot [OF h, of ?ps "\<lparr>ch0 = 0, ch1 = 0, ch2 = 0, ch3 = 0\<rparr>" "[7]"]
  note t4 = t [THEN conjunct2, THEN conjunct2, THEN conjunct2, THEN conjunct2]
  have last20: "drop (length ?ps - 20) (map (channel_value 1) ?ps) = replicate 20 6"
    by (simp add: channel_value_def)
  have a: "map value (buildChartData (run_packets ?ps ! 1)) = replicate 20 (Some 6)"
    using t4 [THEN conjunct2, THEN mp, OF len, THEN conjunct1]
    unfolding last20 by simp
  have e0: "buildChartData [7] ! 0 = \<lparr>point = 0, value = Some 7\<rparr>"
    using t4 [THEN conjunct1, THEN spec, of 0] by simp
  have e1: "buildChartData [7] ! 1 = \<lparr>point = 1, value = None\<rparr>"
    using t4 [THEN conjunct1, THEN spec, of 1] by simp
  from h len a e0 e1 show ?thesis
    by (intro conjI)
qed

section \<open>Properties of computeYDomain\<close>

lemma scan_min_max_bounds:
  assumes "scan_min_max vs mn mx = (a, b)"
    and "mn \<le> mx" and "lo \<le> mn" and "mx \<le> hi"
    and "\<forall>v\<in>set vs. lo \<le> v \<and> v \<le> hi"
  shows "lo \<le> a \<and> a \<le> b \<and> b \<le> hi"
  using assms
proof (induction vs arbitrary: mn mx)
  case Nil
  then show ?case by simp
next
  case (Cons v vs)
  let ?mn = "if v < mn then v else mn"
  let ?mx = "if v > mx then v else mx"
  have step: "scan_min_max vs ?mn ?mx = (a, b)"
    using Cons.prems(1) by (simp add: Let_def)
  have "?mn \<le> ?mx" "lo \<le> ?mn" "?mx \<le> hi"
    using Cons.prems by auto
  moreover have "\<forall>v\<in>set vs. lo \<le> v \<and> v \<le> hi"
    using Cons.prems(5) by simp
  ultimately show ?case
    using Cons.IH [OF step] by blast
qed

lemma lit_0_05_pos: "0 < lit_0_05"
  by (simp add: lit_0_05_def)

lemma domain_of_min_max:
  assumes "0 \<le> mn" and "mn \<le> mx" and "mx \<le> 2 ^ 32 - 1"
  defines "scaled \<equiv> fl (fl (mx - mn) * lit_0_05)"
  defines "pad \<equiv> (if scaled = 0 then 1 else scaled)"
  shows "0 \<le> max 0 (fl (mn - pad))"
    and "min Y_MAX (fl (mx + pad)) \<le> 2 ^ 32"
    and "max 0 (fl (mn - pad)) \<le> min Y_MAX (fl (mx + pad))"
proof -
  have "0 \<le> fl (mx - mn)"
    using assms(2) by (intro fl_nonneg) simp
  then have "0 \<le> fl (mx - mn) * lit_0_05"
    using lit_0_05_pos by simp
  then have "0 \<le> scaled"
    unfolding scaled_def by (rule fl_nonneg)
  then have pad: "0 \<le> pad"
    by (simp add: pad_def)
  show "0 \<le> max 0 (fl (mn - pad))"
    by simp
  show "min Y_MAX (fl (mx + pad)) \<le> 2 ^ 32"
    by (simp add: Y_MAX_def)
  have hi0: "0 \<le> fl (mx + pad)"
    using assms(1,2) pad by (intro fl_nonneg) simp
  have le: "mn - pad \<le> mx + pad"
    using assms(2) pad by simp
  have lo_hi: "fl (mn - pad) \<le> fl (mx + pad)"
    using le by (rule fl_mono)
  have "mn - pad \<le> 2 ^ 32"
    using assms(2,3) pad by simp
  then have "fl (mn - pad) \<le> fl (2 ^ 32)"
    by (rule fl_mono)
  then have lo_Y: "fl (mn - pad) \<le> Y_MAX"
    unfolding fl_Y_MAX Y_MAX_def .
  show "max 0 (fl (mn - pad)) \<le> min Y_MAX (fl (mx + pad))"
    using hi0 lo_hi lo_Y by (simp add: Y_MAX_def)
qed

lemma fl_20: "fl 20 = 20" by code_simp
lemma fl_pad_20: "fl (20 * lit_0_05) = 1" by code_simp
lemma fl_9: "fl 9 = 9" by code_simp
lemma fl_31: "fl 31 = 31" by code_simp
lemma fl_4: "fl 4 = 4" by code_simp
lemma fl_6: "fl 6 = 6" by code_simp

text \<open>
  Claim C4. With autoscale enabled, \<open>computeYDomain\<close> applied to the window
  \<open>[10, 20, 30]\<close> returns exactly \<open>(9, 31)\<close> (the product \<open>(30 - 10) * 0.05\<close> rounds
  to 1), and applied to the window \<open>[5]\<close> (the product is 0, so the pad falls back
  to 1) returns exactly \<open>(4, 6)\<close>.
\<close>

theorem computeYDomain_examples:
  "computeYDomain [10, 20, 30] True = (9, 31) \<and> computeYDomain [5] True = (4, 6)"
proof
  show "computeYDomain [10, 20, 30] True = (9, 31)"
    by (simp add: computeYDomain_def Let_def fl_20 fl_pad_20 fl_9 fl_31 Y_MAX_def)
  show "computeYDomain [5] True = (4, 6)"
    by (simp add: computeYDomain_def Let_def fl_0 fl_4 fl_6 Y_MAX_def)
qed

theorem computeYDomain_examples_witness:
  "fst (computeYDomain [10, 20, 30] True) = 9 \<and> snd (computeYDomain [5] True) = 6"
  using computeYDomain_examples by simp

text \<open>
  Claim C7. For every window of values in \<open>[0, 2 ^ 32 - 1]\<close> and every autoscale
  flag, the returned range \<open>(low, high)\<close> satisfies \<open>0 \<le> low\<close>,
  \<open>high \<le> 2 ^ 32\<close> and \<open>low \<le> high\<close>.
\<close>

theorem computeYDomain_range:
  assumes "\<forall>v\<in>set buf. 0 \<le> v \<and> v \<le> 2 ^ 32 - 1"
  shows "0 \<le> fst (computeYDomain buf autoScale)
       \<and> snd (computeYDomain buf autoScale) \<le> 2 ^ 32
       \<and> fst (computeYDomain buf autoScale) \<le> snd (computeYDomain buf autoScale)"
proof (cases "\<not> autoScale \<or> length buf = 0")
  case True
  then show ?thesis
    by (simp add: computeYDomain_def Y_MAX_def)
next
  case False
  then obtain v vs where buf: "buf = v # vs"
    by (cases buf) auto
  obtain mn mx where sc: "scan_min_max vs v v = (mn, mx)"
    by (cases "scan_min_max vs v v") auto
  have b: "0 \<le> mn \<and> mn \<le> mx \<and> mx \<le> 2 ^ 32 - 1"
    using assms by (intro scan_min_max_bounds [OF sc]) (simp_all add: buf)
  have eq: "computeYDomain buf autoScale =
      (max 0 (fl (mn - (if fl (fl (mx - mn) * lit_0_05) = 0 then 1 else fl (fl (mx - mn) * lit_0_05)))),
       min Y_MAX (fl (mx + (if fl (fl (mx - mn) * lit_0_05) = 0 then 1 else fl (fl (mx - mn) * lit_0_05)))))"
    using False by (simp add: computeYDomain_def buf sc Let_def)
  show ?thesis
    unfolding eq fst_conv snd_conv
    using domain_of_min_max [of mn mx] b by blast
qed

theorem computeYDomain_range_witness:
  "0 \<le> fst (computeYDomain [0, 4294967295] True)
   \<and> snd (computeYDomain [0, 4294967295] True) \<le> 2 ^ 32
   \<and> fst (computeYDomain [0, 4294967295] True) \<le> snd (computeYDomain [0, 4294967295] True)"
proof -
  have h: "\<forall>v\<in>set [0, 4294967295 :: rat]. 0 \<le> v \<and> v \<le> 2 ^ 32 - 1"
    by simp
  show ?thesis
    by (rule computeYDomain_range [OF h, of True])
qed

section \<open>Properties of the read loop\<close>

lemma frames_short: "length bs < 16 \<Longrightarrow> frames bs = []"
  by (simp add: frames.simps)

lemma frames_long: "16 \<le> length bs \<Longrightarrow> frames bs = take 16 bs # frames (drop 16 bs)"
  by (subst frames.simps) simp

lemma leftover_short: "length bs < 16 \<Longrightarrow> leftover bs = bs"
  by (simp add: leftover.simps)

lemma leftover_long: "16 \<le> length bs \<Longrightarrow> leftover bs = leftover (drop 16 bs)"
  by (subst leftover.simps) simp

lemma length_leftover: "length (leftover bs) < 16"
proof (induction bs rule: leftover.induct)
  case (1 bs)
  then show ?case
    by (cases "length bs < 16") (simp_all add: leftover_short leftover_long)
qed

lemma frames_leftover: "concat (frames bs) @ leftover bs = bs"
proof (induction bs rule: frames.induct)
  case (1 bs)
  then show ?case
    by (cases "length bs < 16")
      (simp_all add: frames_short frames_long leftover_short leftover_long)
qed

lemma length_frames: "f \<in> set (frames bs) \<Longrightarrow> length f = 16"
proof (induction bs rule: frames.induct)
  case (1 bs)
  then show ?case
    by (cases "length bs < 16") (auto simp: frames_short frames_long)
qed

lemma frames_append:
  "frames (bs @ cs) = frames bs @ frames (leftover bs @ cs)"
proof (induction bs rule: frames.induct)
  case (1 bs)
  show ?case
  proof (cases "length bs < 16")
    case True
    then show ?thesis by (simp add: frames_short leftover_short)
  next
    case False
    then have "frames (bs @ cs) = take 16 bs # frames (drop 16 bs @ cs)"
      by (simp add: frames_long)
    with False "1.IH" show ?thesis
      by (simp add: frames_long leftover_long)
  qed
qed

lemma leftover_append:
  "leftover (bs @ cs) = leftover (leftover bs @ cs)"
proof (induction bs rule: leftover.induct)
  case (1 bs)
  show ?case
  proof (cases "length bs < 16")
    case True
    then show ?thesis by (simp add: leftover_short)
  next
    case False
    then have "leftover (bs @ cs) = leftover (drop 16 bs @ cs)"
      by (simp add: leftover_long [of "bs @ cs"])
    with False "1.IH" show ?thesis
      by (simp add: leftover_long [of bs])
  qed
qed

lemma fresh_block_take:
  "PACKET_SIZE \<le> length buf \<Longrightarrow> fresh_block (take PACKET_SIZE buf) = take PACKET_SIZE buf"
  by (simp add: fresh_block_def)

lemma parse_fresh_block:
  assumes "PACKET_SIZE \<le> length buf"
  shows "parsePacket (fresh_block (take PACKET_SIZE buf)) (Finite 0)
           = Inr (decode_at (take 16 buf) 0)"
proof -
  have len: "length (take PACKET_SIZE buf) = 16"
    using assms by (simp add: PACKET_SIZE_def)
  have "parsePacket (take PACKET_SIZE buf) (Finite 0) = Inr (decode_at (take PACKET_SIZE buf) 0)"
    using len by (intro parsePacket_zero) simp
  then show ?thesis
    unfolding fresh_block_take [OF assms] by (simp add: PACKET_SIZE_def)
qed

lemma drain_short: "length (buffer s) < PACKET_SIZE \<Longrightarrow> drain oe s = s"
  by (simp add: drain.simps)

lemma drain_long:
  assumes "PACKET_SIZE \<le> length (buffer s)"
  shows "drain oe s =
    drain oe (s\<lparr>buffer := drop 16 (buffer s),
                 calls := calls s @ [OnPacket (decode_at (take 16 (buffer s)) 0)]\<rparr>)"
  using assms parse_fresh_block [OF assms]
  by (subst drain.simps) (simp add: Let_def PACKET_SIZE_def)

lemma drain_eq:
  "drain oe s =
     s\<lparr>buffer := leftover (buffer s),
       calls := calls s @ map (\<lambda>f. OnPacket (decode_at f 0)) (frames (buffer s))\<rparr>"
proof (induction "length (buffer s)" arbitrary: s rule: less_induct)
  case less
  show ?case
  proof (cases "length (buffer s) < PACKET_SIZE")
    case True
    then show ?thesis
      by (simp add: drain_short frames_short leftover_short PACKET_SIZE_def)
  next
    case False
    let ?s = "s\<lparr>buffer := drop 16 (buffer s),
                 calls := calls s @ [OnPacket (decode_at (take 16 (buffer s)) 0)]\<rparr>"
    have long: "16 \<le> length (buffer s)"
      using False by (simp add: PACKET_SIZE_def)
    have "length (buffer ?s) < length (buffer s)"
      using long by simp
    then have "drain oe ?s =
      ?s\<lparr>buffer := leftover (buffer ?s),
         calls := calls ?s @ map (\<lambda>f. OnPacket (decode_at f 0)) (frames (buffer ?s))\<rparr>"
      by (rule less)
    then show ?thesis
      using False long
      by (simp add: drain_long frames_long [of "buffer s"] leftover_long [of "buffer s"])
  qed
qed

lemma drain_signal: "signal (drain oe s) = signal s"
  by (simp add: drain_eq)

lemma drain_buffer_length: "length (buffer (drain oe s)) < PACKET_SIZE"
  by (simp add: drain_eq length_leftover PACKET_SIZE_def)

lemma read_loop_aborted:
  "signal s = Some True \<Longrightarrow> read_loop oe s evs = (Returned, s)"
  by (cases evs) simp_all

lemma read_loop_deliver:
  assumes "signal s \<noteq> Some True" and "length (buffer s) < 16"
  shows "read_loop oe s (deliver chunks) =
    (Pending,
     s\<lparr>buffer := leftover (buffer s @ concat chunks),
       calls := calls s @ map (\<lambda>f. OnPacket (decode_at f 0)) (frames (buffer s @ concat chunks))\<rparr>)"
  using assms
proof (induction chunks arbitrary: s)
  case Nil
  then show ?case
    by (simp add: deliver_def leftover_short frames_short)
next
  case (Cons c cs)
  let ?s = "drain oe (s\<lparr>buffer := buffer s @ c\<rparr>)"
  have sg: "signal ?s \<noteq> Some True"
    using Cons.prems(1) by (simp add: drain_signal)
  have len: "length (buffer ?s) < 16"
    using drain_buffer_length [of oe "s\<lparr>buffer := buffer s @ c\<rparr>"]
    by (simp add: PACKET_SIZE_def)
  have step: "read_loop oe s (deliver (c # cs)) = read_loop oe ?s (deliver cs)"
    using Cons.prems(1) by (simp add: deliver_def)
  have fr: "frames (buffer s @ c @ concat cs)
      = frames (buffer s @ c) @ frames (leftover (buffer s @ c) @ concat cs)"
    using frames_append [of "buffer s @ c" "concat cs"] by simp
  have lo: "leftover (buffer s @ c @ concat cs)
      = leftover (leftover (buffer s @ c) @ concat cs)"
    using leftover_append [of "buffer s @ c" "concat cs"] by simp
  show ?case
    unfolding step Cons.IH [OF sg len]
    by (simp add: drain_eq fr lo)
qed

lemma read_loop_buffer_length:
  "length (buffer s) < PACKET_SIZE \<Longrightarrow> length (buffer (snd (read_loop oe s evs))) < PACKET_SIZE"
proof (induction evs arbitrary: s)
  case Nil
  then show ?case by simp
next
  case (Cons ev evs)
  show ?case
  proof (cases "signal s = Some True")
    case True
    then show ?thesis using Cons.prems by simp
  next
    case False
    show ?thesis
    proof (cases ev)
      case (ReadValue v)
      then show ?thesis
        using False Cons.prems Cons.IH [of s]
          Cons.IH [OF drain_buffer_length, of oe "s\<lparr>buffer := buffer s @ the v\<rparr>"]
        by (cases v) simp_all
    next
      case ReadDone
      then show ?thesis using False Cons.prems by simp
    next
      case (ReadRejects err)
      then show ?thesis using False Cons.prems by simp
    next
      case Abort
      then show ?thesis using False Cons.prems Cons.IH [of s] by simp
    qed
  qed
qed

lemma read_loop_append:
  "fst (read_loop oe s pre) = Pending \<Longrightarrow>
   read_loop oe s (pre @ post) = read_loop oe (snd (read_loop oe s pre)) post"
proof (induction pre arbitrary: s)
  case Nil
  then show ?case by (simp split: if_splits)
next
  case (Cons ev pre)
  show ?case
  proof (cases "signal s = Some True")
    case True
    then show ?thesis using Cons.prems by simp
  next
    case False
    show ?thesis
    proof (cases ev)
      case (ReadValue v)
      then show ?thesis
        using False Cons.prems Cons.IH [of s]
          Cons.IH [of "drain oe (s\<lparr>buffer := buffer s @ the v\<rparr>)"]
        by (cases v) simp_all
    next
      case ReadDone
      then show ?thesis using False Cons.prems by simp
    next
      case (ReadRejects err)
      then show ?thesis using False Cons.prems by simp
    next
      case Abort
      then show ?thesis using False Cons.prems Cons.IH [of s] by (simp split: if_splits)
    qed
  qed
qed

lemma read_loop_abort:
  assumes "signal s \<noteq> None"
  shows "fst (read_loop oe s (pre @ Abort # post)) = Returned
       \<and> calls (snd (read_loop oe s (pre @ Abort # post))) = calls (snd (read_loop oe s pre))"
  using assms
proof (induction pre arbitrary: s)
  case Nil
  then show ?case by auto
next
  case (Cons ev pre)
  show ?case
  proof (cases "signal s = Some True")
    case True
    then show ?thesis by simp
  next
    case False
    show ?thesis
    proof (cases ev)
      case (ReadValue v)
      have "signal (drain oe (s\<lparr>buffer := buffer s @ the v\<rparr>)) \<noteq> None"
        using Cons.prems by (simp add: drain_signal)
      then show ?thesis
        using ReadValue False Cons.IH [OF Cons.prems]
          Cons.IH [of "drain oe (s\<lparr>buffer := buffer s @ the v\<rparr>)"]
        by (cases v) simp_all
    next
      case ReadDone
      then show ?thesis using False by simp
    next
      case (ReadRejects err)
      then show ?thesis using False by simp
    next
      case Abort
      then show ?thesis using False Cons.prems by auto
    qed
  qed
qed

lemma read_loop_abort_rest:
  assumes "signal s \<noteq> None"
  shows "read_loop oe s (pre @ Abort # post) = read_loop oe s (pre @ [Abort])"
  using assms
proof (induction pre arbitrary: s)
  case Nil
  then show ?case by auto
next
  case (Cons ev pre)
  show ?case
  proof (cases "signal s = Some True")
    case True
    then show ?thesis by simp
  next
    case False
    show ?thesis
    proof (cases ev)
      case (ReadValue v)
      have "signal (drain oe (s\<lparr>buffer := buffer s @ the v\<rparr>)) \<noteq> None"
        using Cons.prems by (simp add: drain_signal)
      then show ?thesis
        using ReadValue False Cons.IH [OF Cons.prems]
          Cons.IH [of "drain oe (s\<lparr>buffer := buffer s @ the v\<rparr>)"]
        by (cases v) simp_all
    next
      case ReadDone
      then show ?thesis using False by simp
    next
      case (ReadRejects err)
      then show ?thesis using False by simp
    next
      case Abort
      then show ?thesis using False Cons.prems by auto
    qed
  qed
qed

lemma read_loop_calls_filter:
  assumes "filter P (calls s) = []"
    and "\<And>d. \<not> P (OnPacket d)"
    and "\<And>e. e \<noteq> AbortError \<Longrightarrow> \<not> P (OnError (ReaderException e))"
  shows "filter P (calls (snd (read_loop oe s evs))) = []"
  using assms(1)
proof (induction evs arbitrary: s)
  case Nil
  then show ?case by simp
next
  case (Cons ev evs)
  show ?case
  proof (cases "signal s = Some True")
    case True
    then show ?thesis using Cons.prems by simp
  next
    case False
    show ?thesis
    proof (cases ev)
      case (ReadValue v)
      have "filter P (calls (drain oe (s\<lparr>buffer := buffer s @ the v\<rparr>))) = []"
        using Cons.prems assms(2) by (simp add: drain_eq filter_empty_conv)
      then show ?thesis
        using ReadValue False Cons.IH [OF Cons.prems]
          Cons.IH [of "drain oe (s\<lparr>buffer := buffer s @ the v\<rparr>)"]
        by (cases v) simp_all
    next
      case ReadDone
      then show ?thesis using False Cons.prems by simp
    next
      case (ReadRejects err)
      then show ?thesis using False Cons.prems assms(3) by simp
    next
      case Abort
      then show ?thesis using False Cons.prems Cons.IH [OF Cons.prems] by simp
    qed
  qed
qed

lemma read_loop_abort_error:
  "calls (snd (read_loop oe s (pre @ ReadRejects AbortError # post)))
     = calls (snd (read_loop oe s pre))
   \<and> fst (read_loop oe s (pre @ ReadRejects AbortError # post)) = Returned"
proof (induction pre arbitrary: s)
  case Nil
  then show ?case by auto
next
  case (Cons ev pre)
  show ?case
  proof (cases "signal s = Some True")
    case True
    then show ?thesis by simp
  next
    case False
    show ?thesis
    proof (cases ev)
      case (ReadValue v)
      then show ?thesis
        using False Cons.IH [of s]
          Cons.IH [of "drain oe (s\<lparr>buffer := buffer s @ the v\<rparr>)"]
        by (cases v) simp_all
    next
      case ReadDone
      then show ?thesis using False by simp
    next
      case (ReadRejects err)
      then show ?thesis using False by simp
    next
      case Abort
      then show ?thesis using False Cons.IH [of s] by auto
    qed
  qed
qed

lemma length_frames_div: "length (frames bs) = length bs div 16"
proof (induction bs rule: frames.induct)
  case (1 bs)
  show ?case
  proof (cases "length bs < 16")
    case True
    then show ?thesis by (simp add: frames_short)
  next
    case False
    then have "length (frames (drop 16 bs)) = (length bs - 16) div 16"
      using "1.IH" by simp
    then show ?thesis
      using False by (simp add: frames_long le_div_geq)
  qed
qed

lemma startReadLoop_deliver:
  assumes "sig \<noteq> Some True"
  shows "startReadLoop True oe sig (deliver chunks) =
    (Pending,
     \<lparr>buffer = leftover (concat chunks), signal = sig,
      calls = map (\<lambda>f. OnPacket (decode_at f 0)) (frames (concat chunks))\<rparr>)"
  using read_loop_deliver [of "\<lparr>buffer = [], signal = sig, calls = []\<rparr>" oe chunks] assms
  by (simp add: startReadLoop_def)

subsection \<open>Claims about startReadLoop\<close>

text \<open>
  Claim C1. For every finite sequence of chunks delivered by the reader (the signal not
  aborted), \<open>startReadLoop\<close> invokes \<open>onPacket\<close> exactly once per consecutive
  16-byte frame of the concatenation of all received bytes, in stream order, each
  packet decoded from that frame, and nothing else; the frames followed by the bytes
  left in the buffer are the received bytes, so none is lost or reordered. In
  particular two chunks of 10 and 22 bytes give exactly 2 packets, the same as the
  one 32-byte chunk.
\<close>

theorem startReadLoop_reassembly:
  assumes "sig \<noteq> Some True"
  shows "startReadLoop True oe sig (deliver chunks) =
      (Pending,
       \<lparr>buffer = leftover (concat chunks), signal = sig,
        calls = map (\<lambda>f. OnPacket (decode_at f 0)) (frames (concat chunks))\<rparr>)
    \<and> concat (frames (concat chunks)) @ leftover (concat chunks) = concat chunks
    \<and> (\<forall>f\<in>set (frames (concat chunks)).
          length f = 16 \<and> parsePacket f (Finite 0) = Inr (decode_at f 0))
    \<and> (length a = 10 \<and> length b = 22 \<longrightarrow>
          calls (snd (startReadLoop True oe sig (deliver [a, b])))
            = calls (snd (startReadLoop True oe sig (deliver [a @ b])))
          \<and> length (calls (snd (startReadLoop True oe sig (deliver [a, b])))) = 2)"
proof -
  have c1: "startReadLoop True oe sig (deliver chunks) =
      (Pending,
       \<lparr>buffer = leftover (concat chunks), signal = sig,
        calls = map (\<lambda>f. OnPacket (decode_at f 0)) (frames (concat chunks))\<rparr>)"
    using assms by (rule startReadLoop_deliver)
  have c2: "concat (frames (concat chunks)) @ leftover (concat chunks) = concat chunks"
    by (rule frames_leftover)
  have c3: "\<forall>f\<in>set (frames (concat chunks)).
          length f = 16 \<and> parsePacket f (Finite 0) = Inr (decode_at f 0)"
  proof
    fix f
    assume "f \<in> set (frames (concat chunks))"
    then have len: "length f = 16" by (rule length_frames)
    then have "parsePacket f (Finite 0) = Inr (decode_at f 0)"
      by (intro parsePacket_zero) simp
    with len show "length f = 16 \<and> parsePacket f (Finite 0) = Inr (decode_at f 0)"
      by simp
  qed
  have c4: "length a = 10 \<and> length b = 22 \<longrightarrow>
          calls (snd (startReadLoop True oe sig (deliver [a, b])))
            = calls (snd (startReadLoop True oe sig (deliver [a @ b])))
          \<and> length (calls (snd (startReadLoop True oe sig (deliver [a, b])))) = 2"
    by (simp add: startReadLoop_deliver [OF assms] length_frames_div)
  from c1 c2 c3 c4 show ?thesis
    by (intro conjI)
qed

theorem startReadLoop_reassembly_witness:
  "(None :: bool option) \<noteq> Some True
   \<and> length (replicate 10 (1 :: byte)) = 10 \<and> length (replicate 22 (2 :: byte)) = 22
   \<and> fst (startReadLoop True True None (deliver [replicate 10 1, replicate 22 2])) = Pending
   \<and> length (calls (snd (startReadLoop True True None
         (deliver [replicate 10 1, replicate 22 2])))) = 2
   \<and> calls (snd (startReadLoop True True None (deliver [replicate 10 1, replicate 22 2])))
       = calls (snd (startReadLoop True True None (deliver [replicate 10 1 @ replicate 22 2])))"
proof -
  have h: "(None :: bool option) \<noteq> Some True" by simp
  have la: "length (replicate 10 (1 :: byte)) = 10 \<and> length (replicate 22 (2 :: byte)) = 22"
    by simp
  note t = startReadLoop_reassembly [OF h, of True "[replicate 10 1, replicate 22 2]"
      "replicate 10 1" "replicate 22 2"]
  have p: "fst (startReadLoop True True None (deliver [replicate 10 1, replicate 22 2])) = Pending"
    using t [THEN conjunct1] by simp
  note t4 = t [THEN conjunct2, THEN conjunct2, THEN conjunct2, THEN mp, OF la]
  from h la [THEN conjunct1] la [THEN conjunct2] p t4 [THEN conjunct2] t4 [THEN conjunct1]
  show ?thesis
    by (intro conjI)
qed

text \<open>
  Claim C6. With a signal that is already aborted the loop returns without any
  callback. When the signal is aborted during a read, the loop returns, and the
  callbacks made are exactly those made for the events before the abort: no chunk
  after it reaches \<open>onPacket\<close>, whatever follows. A read rejected with
  \<open>AbortError\<close> ends the loop without any further callback, and \<open>onError\<close> is
  never invoked with an \<open>AbortError\<close>.
\<close>

theorem startReadLoop_cancellation:
  "startReadLoop True oe (Some True) evs
      = (Returned, \<lparr>buffer = [], signal = Some True, calls = []\<rparr>)
   \<and> fst (startReadLoop True oe (Some b) (pre @ Abort # post)) = Returned
   \<and> calls (snd (startReadLoop True oe (Some b) (pre @ Abort # post)))
       = calls (snd (startReadLoop True oe (Some b) pre))
   \<and> startReadLoop True oe (Some b) (pre @ Abort # post)
       = startReadLoop True oe (Some b) (pre @ [Abort])
   \<and> calls (snd (startReadLoop True oe sig (pre @ ReadRejects AbortError # post)))
       = calls (snd (startReadLoop True oe sig pre))
   \<and> OnError (ReaderException AbortError)
       \<notin> set (calls (snd (startReadLoop readable oe sig evs)))"
proof -
  let ?s = "\<lambda>sg. \<lparr>buffer = [], signal = sg, calls = []\<rparr>"
  have sg: "signal (?s (Some b)) \<noteq> None" by simp
  have c1: "startReadLoop True oe (Some True) evs
      = (Returned, \<lparr>buffer = [], signal = Some True, calls = []\<rparr>)"
    by (simp add: startReadLoop_def read_loop_aborted)
  have c2: "fst (startReadLoop True oe (Some b) (pre @ Abort # post)) = Returned"
    using read_loop_abort [OF sg, of oe pre post] by (simp add: startReadLoop_def)
  have c3: "calls (snd (startReadLoop True oe (Some b) (pre @ Abort # post)))
       = calls (snd (startReadLoop True oe (Some b) pre))"
    using read_loop_abort [OF sg, of oe pre post] by (simp add: startReadLoop_def)
  have c4: "startReadLoop True oe (Some b) (pre @ Abort # post)
       = startReadLoop True oe (Some b) (pre @ [Abort])"
    using read_loop_abort_rest [OF sg, of oe pre post] by (simp add: startReadLoop_def)
  have c5: "calls (snd (startReadLoop True oe sig (pre @ ReadRejects AbortError # post)))
       = calls (snd (startReadLoop True oe sig pre))"
    using read_loop_abort_error [of oe "?s sig" pre post] by (simp add: startReadLoop_def)
  have "filter (\<lambda>c. c = OnError (ReaderException AbortError))
          (calls (snd (startReadLoop readable oe sig evs))) = []"
  proof (cases readable)
    case True
    have "filter (\<lambda>c. c = OnError (ReaderException AbortError))
            (calls (snd (read_loop oe (?s sig) evs))) = []"
      by (rule read_loop_calls_filter) simp_all
    with True show ?thesis by (simp add: startReadLoop_def)
  next
    case False
    then show ?thesis by (simp add: startReadLoop_def call_onError_def)
  qed
  then have c6: "OnError (ReaderException AbortError)
       \<notin> set (calls (snd (startReadLoop readable oe sig evs)))"
    by (auto simp: filter_empty_conv)
  from c1 c2 c3 c4 c5 c6 show ?thesis
    by (intro conjI)
qed

text \<open>
  Claim C8. At every point where the loop awaits the next chunk, and when it has
  returned, the buffer holds fewer than \<open>PACKET_SIZE = 16\<close> bytes: the inner loop
  leaves fewer than 16 bytes, and a run that is suspended after the events \<open>pre\<close>
  continues from exactly the state reached there.
\<close>

theorem startReadLoop_carry_bound:
  "length (buffer (snd (startReadLoop readable oe sig evs))) < PACKET_SIZE
   \<and> length (buffer (drain oe s)) < PACKET_SIZE
   \<and> (fst (startReadLoop True oe sig pre) = Pending \<longrightarrow>
        startReadLoop True oe sig (pre @ post)
          = read_loop oe (snd (startReadLoop True oe sig pre)) post)"
proof -
  have c1: "length (buffer (snd (startReadLoop readable oe sig evs))) < PACKET_SIZE"
  proof (cases readable)
    case True
    have "length (buffer (snd (read_loop oe \<lparr>buffer = [], signal = sig, calls = []\<rparr> evs)))
            < PACKET_SIZE"
      by (rule read_loop_buffer_length) (simp add: PACKET_SIZE_def)
    with True show ?thesis by (simp add: startReadLoop_def)
  next
    case False
    then show ?thesis by (simp add: startReadLoop_def PACKET_SIZE_def)
  qed
  have c2: "length (buffer (drain oe s)) < PACKET_SIZE"
    by (rule drain_buffer_length)
  have c3: "fst (startReadLoop True oe sig pre) = Pending \<longrightarrow>
        startReadLoop True oe sig (pre @ post)
          = read_loop oe (snd (startReadLoop True oe sig pre)) post"
    using read_loop_append [of oe "\<lparr>buffer = [], signal = sig, calls = []\<rparr>" pre post]
    by (simp add: startReadLoop_def)
  from c1 c2 c3 show ?thesis
    by (intro conjI)
qed

theorem startReadLoop_carry_bound_witness:
  "fst (startReadLoop True True None (deliver [replicate 20 1])) = Pending
   \<and> startReadLoop True True None (deliver [replicate 20 1] @ deliver [replicate 30 2])
       = read_loop True (snd (startReadLoop True True None (deliver [replicate 20 1])))
           (deliver [replicate 30 2])
   \<and> length (buffer (snd (startReadLoop True True None (deliver [replicate 20 1])))) < PACKET_SIZE"
proof -
  have h: "(None :: bool option) \<noteq> Some True" by simp
  have p: "fst (startReadLoop True True None (deliver [replicate 20 1])) = Pending"
    by (simp add: startReadLoop_deliver [OF h])
  note t = startReadLoop_carry_bound [where readable = True and oe = True and sig = None
      and evs = "deliver [replicate 20 1]" and pre = "deliver [replicate 20 1]"
      and post = "deliver [replicate 30 2]"]
  from p t [THEN conjunct2, THEN conjunct2, THEN mp, OF p] t [THEN conjunct1]
  show ?thesis
    by (intro conjI)
qed

text \<open>
  Claim C9. Whenever the inner loop's guard holds, the block handed to
  \<open>parsePacket\<close> has exactly 16 bytes and \<open>parsePacket\<close> returns a packet; in no
  run of \<open>startReadLoop\<close> is \<open>onError\<close> invoked with a decode failure.
\<close>

theorem startReadLoop_no_decode_failure:
  "(PACKET_SIZE \<le> length buf \<longrightarrow>
      length (fresh_block (take PACKET_SIZE buf)) = 16
      \<and> parsePacket (fresh_block (take PACKET_SIZE buf)) (Finite 0)
          = Inr (decode_at (take PACKET_SIZE buf) 0))
   \<and> filter is_decode_failure (calls (snd (startReadLoop readable oe sig evs))) = []"
proof -
  have c1: "PACKET_SIZE \<le> length buf \<longrightarrow>
      length (fresh_block (take PACKET_SIZE buf)) = 16
      \<and> parsePacket (fresh_block (take PACKET_SIZE buf)) (Finite 0)
          = Inr (decode_at (take PACKET_SIZE buf) 0)"
  proof
    assume h: "PACKET_SIZE \<le> length buf"
    have "length (fresh_block (take PACKET_SIZE buf)) = 16"
      unfolding fresh_block_take [OF h] using h by (simp add: PACKET_SIZE_def)
    moreover have "parsePacket (fresh_block (take PACKET_SIZE buf)) (Finite 0)
          = Inr (decode_at (take PACKET_SIZE buf) 0)"
      using parse_fresh_block [OF h] by (simp add: PACKET_SIZE_def)
    ultimately show "length (fresh_block (take PACKET_SIZE buf)) = 16
      \<and> parsePacket (fresh_block (take PACKET_SIZE buf)) (Finite 0)
          = Inr (decode_at (take PACKET_SIZE buf) 0)"
      by (rule conjI)
  qed
  have c2: "filter is_decode_failure (calls (snd (startReadLoop readable oe sig evs))) = []"
  proof (cases readable)
    case True
    have "filter is_decode_failure
            (calls (snd (read_loop oe \<lparr>buffer = [], signal = sig, calls = []\<rparr> evs))) = []"
      by (rule read_loop_calls_filter) simp_all
    with True show ?thesis by (simp add: startReadLoop_def)
  next
    case False
    then show ?thesis by (simp add: startReadLoop_def call_onError_def)
  qed
  from c1 c2 show ?thesis
    by (intro conjI)
qed

theorem startReadLoop_no_decode_failure_witness:
  "PACKET_SIZE \<le> length (replicate 40 (3 :: byte))
   \<and> length (fresh_block (take PACKET_SIZE (replicate 40 (3 :: byte)))) = 16
   \<and> \<not> isl (parsePacket (fresh_block (take PACKET_SIZE (replicate 40 (3 :: byte)))) (Finite 0))"
proof -
  have h: "PACKET_SIZE \<le> length (replicate 40 (3 :: byte))"
    by (simp add: PACKET_SIZE_def)
  note t = startReadLoop_no_decode_failure [where buf = "replicate 40 3",
      THEN conjunct1, THEN mp, OF h]
  from h t show ?thesis
    by simp
qed

end
